theory Spec2Isabelle
  imports Complex_Main "HOL-Library.Char_ord" "HOL-Library.List_Lexorder"
    "HOL-Library.Product_Lexorder" "HOL-Library.Multiset"
begin

section \<open>Resource orchestration, workload scheduling and carbon-aware packing\<close>

text \<open>
  The development embeds \<^verbatim>\<open>src/resource_management/neural_orchestrator.py\<close>.
  Python floats are modelled by \<^typ>\<open>real\<close>: comparisons and arithmetic are the exact
  ones, so rounding, overflow and NaN are outside the model. Python's unbounded integers
  are \<^typ>\<open>int\<close> or \<^typ>\<open>nat\<close>, strings are \<^typ>\<open>string\<close>, and a dictionary with
  optional keys is a record of \<^typ>\<open>'a option\<close> fields (\<open>None\<close>: the key is absent).
\<close>

subsection \<open>Exceptions\<close>

text \<open>
  The exceptions the modelled code can meet. \<open>Raised\<close> stands for any exception of an
  external probe (psutil), \<open>NanResult\<close> for the not-a-number that numpy returns for the
  mean of an empty array, which has no counterpart among the reals.
\<close>

datatype py_error = TypeError | IndexError | ZeroDivisionError | NanResult | Raised string

subsection \<open>Job descriptors\<close>

text \<open>
  A job is the dictionary the caller passes in. The code reads it only through
  \<^verbatim>\<open>job.get(key, default)\<close>, so each key may be absent.
\<close>

text \<open>
  The values under the keys the code does not read: numbers (booleans among them, as
  Python compares \<^verbatim>\<open>True\<close> equal to 1), strings, lists and \<^verbatim>\<open>None\<close>. Two dictionaries
  are equal when they have the same keys with equal values, so the record of the keys
  read and the map of the others is equal exactly when the dictionaries are.
\<close>

datatype pyval = PNone | PNum real | PStr string | PList "pyval list"

record job =
  job_id :: "string option"
  job_type :: "string option"
  urgency :: "string option"
  resource_weight :: "real option"
  estimated_duration_hours :: "real option"
  carbon_priority :: "string option"
  job_other :: "string \<rightharpoonup> pyval"

definition dict_get :: "'a option \<Rightarrow> 'a \<Rightarrow> 'a" where
  "dict_get v d = (case v of None \<Rightarrow> d | Some x \<Rightarrow> x)"

subsection \<open>\<^verbatim>\<open>WorkloadAwareScheduler._calculate_job_priority\<close>\<close>

definition type_priorities :: "(string \<times> int) list" where
  "type_priorities =
     [(''training'', 50), (''inference'', 10), (''batch_processing'', 30),
      (''model_optimization'', 40)]"

definition urgency_modifiers :: "(string \<times> int) list" where
  "urgency_modifiers =
     [(''critical'', - 30), (''high'', - 15), (''normal'', 0), (''low'', 15)]"

definition calculate_job_priority :: "job \<Rightarrow> int" where
  "calculate_job_priority j =
     (let priority = 100;
          jt = dict_get (job_type j) ''inference'';
          priority = priority + dict_get (map_of type_priorities jt) 50;
          u = dict_get (urgency j) ''normal'';
          priority = priority + dict_get (map_of urgency_modifiers u) 0;
          rw = dict_get (resource_weight j) 1;
          priority = (if rw > 2 then priority + 20 else priority)
      in max 1 priority)"

text \<open>The priority rule in the words of the specification, for comparison with the code.\<close>

definition spec_type_offset :: "string \<Rightarrow> int" where
  "spec_type_offset t =
     (if t = ''training'' then 50
      else if t = ''inference'' then 10
      else if t = ''batch_processing'' then 30
      else if t = ''model_optimization'' then 40
      else 50)"

definition spec_urgency_modifier :: "string \<Rightarrow> int" where
  "spec_urgency_modifier u =
     (if u = ''critical'' then - 30
      else if u = ''high'' then - 15
      else if u = ''normal'' then 0
      else if u = ''low'' then 15
      else 0)"

definition spec_priority :: "string \<Rightarrow> string \<Rightarrow> real \<Rightarrow> int" where
  "spec_priority t u w =
     max 1 (100 + spec_type_offset t + spec_urgency_modifier u + (if w > 2 then 20 else 0))"

subsection \<open>Resource samples and the rolling history\<close>

text \<open>
  A timestamp is observed by the code only through \<^verbatim>\<open>time.mktime(ts.timetuple())\<close> and
  \<^verbatim>\<open>ts.weekday()\<close>; the record holds these two observations.
\<close>

record datetime =
  dt_mktime :: real
  dt_weekday :: nat

record ResourceMetrics =
  cpu_usage :: real
  memory_usage :: real
  gpu_usage :: real
  storage_usage :: real
  network_io :: int
  timestamp :: datetime

text \<open>
  What the probes of one \<^verbatim>\<open>monitor_resources\<close> call read from the machine:
  \<^verbatim>\<open>psutil.cpu_percent\<close>, \<^verbatim>\<open>virtual_memory().percent\<close>, whether torch reports a GPU, the
  draw of \<^verbatim>\<open>np.random.uniform(20, 80)\<close>, \<^verbatim>\<open>disk_usage('/')\<close> and \<^verbatim>\<open>net_io_counters()\<close>.
\<close>

record probe =
  p_cpu_percent :: real
  p_memory_percent :: real
  p_gpu_available :: bool
  p_gpu_draw :: real
  p_disk_used :: int
  p_disk_total :: int
  p_bytes_sent :: int
  p_bytes_recv :: int

text \<open>
  The body of the \<^verbatim>\<open>try\<close> block up to the construction of the sample. The argument is
  \<open>Inl e\<close> when one of the probes raised \<open>e\<close>; the division \<^verbatim>\<open>disk.used / disk.total\<close>
  raises on a zero total.
\<close>

definition sample_metrics :: "py_error + probe \<Rightarrow> datetime \<Rightarrow> py_error + ResourceMetrics" where
  "sample_metrics pr now =
     (case pr of
        Inl e \<Rightarrow> Inl e
      | Inr p \<Rightarrow>
          if p_disk_total p = 0 then Inl ZeroDivisionError
          else Inr \<lparr>cpu_usage = p_cpu_percent p,
                    memory_usage = p_memory_percent p,
                    gpu_usage = (if p_gpu_available p then p_gpu_draw p else 0),
                    storage_usage = (real_of_int (p_disk_used p) / real_of_int (p_disk_total p)) * 100,
                    network_io = p_bytes_sent p + p_bytes_recv p,
                    timestamp = now\<rparr>)"

definition zero_metrics :: "datetime \<Rightarrow> ResourceMetrics" where
  "zero_metrics now =
     \<lparr>cpu_usage = 0, memory_usage = 0, gpu_usage = 0, storage_usage = 0, network_io = 0,
      timestamp = now\<rparr>"

text \<open>Lines 58 to 60: append, then drop the head (\<^verbatim>\<open>pop(0)\<close>) above 1000 entries.\<close>

definition store_metrics :: "ResourceMetrics \<Rightarrow> ResourceMetrics list \<Rightarrow> ResourceMetrics list" where
  "store_metrics metrics resource_history =
     (let h = resource_history @ [metrics]
      in if length h > 1000 then tl h else h)"

text \<open>
  \<^verbatim>\<open>monitor_resources\<close>: the state is the history; the result is the returned sample
  and the new history.
\<close>

definition monitor_resources ::
  "py_error + probe \<Rightarrow> datetime \<Rightarrow> ResourceMetrics list \<Rightarrow> ResourceMetrics \<times> ResourceMetrics list"
where
  "monitor_resources pr now resource_history =
     (case sample_metrics pr now of
        Inr metrics \<Rightarrow> (metrics, store_metrics metrics resource_history)
      | Inl e \<Rightarrow> (zero_metrics now, resource_history))"

text \<open>A sequence of calls, each with its probe outcome and clock reading, from a given history.\<close>

fun monitor_all ::
  "(py_error + probe) \<times> datetime \<Rightarrow> ResourceMetrics list \<Rightarrow> ResourceMetrics list"
where
  "monitor_all (pr, now) h = snd (monitor_resources pr now h)"

definition monitor_run :: "((py_error + probe) \<times> datetime) list \<Rightarrow> ResourceMetrics list" where
  "monitor_run calls = fold monitor_all calls []"

text \<open>The samples of the calls whose probes succeeded, in call order.\<close>

definition sampled :: "((py_error + probe) \<times> datetime) list \<Rightarrow> ResourceMetrics list" where
  "sampled calls =
     List.map_filter (\<lambda>(pr, now). case sample_metrics pr now of Inr m \<Rightarrow> Some m | Inl e \<Rightarrow> None) calls"

text \<open>A run of \<open>n\<close> successful calls, one second apart, on an otherwise steady machine.\<close>

definition steady_probe :: probe where
  "steady_probe =
     \<lparr>p_cpu_percent = 40, p_memory_percent = 50, p_gpu_available = False, p_gpu_draw = 20,
      p_disk_used = 1, p_disk_total = 4, p_bytes_sent = 10, p_bytes_recv = 20\<rparr>"

definition steady_calls :: "nat \<Rightarrow> ((py_error + probe) \<times> datetime) list" where
  "steady_calls n = map (\<lambda>k. (Inr steady_probe, \<lparr>dt_mktime = real k, dt_weekday = 0\<rparr>)) [0..<n]"

subsection \<open>Prediction from the history\<close>

text \<open>
  \<^verbatim>\<open>_extract_prediction_features\<close>: one row of six numbers per sample. Python's \<^verbatim>\<open>%\<close> on
  floats is the floor modulus.
\<close>

definition float_mod :: "real \<Rightarrow> real \<Rightarrow> real" where
  "float_mod x m = x - m * of_int \<lfloor>x / m\<rfloor>"

definition feature_vector :: "ResourceMetrics \<Rightarrow> real list" where
  "feature_vector metric =
     [cpu_usage metric / 100,
      memory_usage metric / 100,
      gpu_usage metric / 100,
      storage_usage metric / 100,
      float_mod (dt_mktime (timestamp metric)) 86400 / 86400,
      real (dt_weekday (timestamp metric)) / 7]"

definition extract_prediction_features :: "ResourceMetrics list \<Rightarrow> real list list" where
  "extract_prediction_features metrics = map feature_vector metrics"

text \<open>
  The numpy operations on a two-dimensional array, given as its list of rows:
  \<^verbatim>\<open>a[-n:]\<close>, \<^verbatim>\<open>np.diff(a, axis=0)\<close>, \<^verbatim>\<open>np.mean(a, axis=0)\<close>, and on vectors the
  elementwise sum and the product with a scalar.
\<close>

definition last_n :: "nat \<Rightarrow> 'a list \<Rightarrow> 'a list" where
  "last_n n xs = drop (length xs - n) xs"

definition vec_sub :: "real list \<Rightarrow> real list \<Rightarrow> real list" where
  "vec_sub a b = map2 (-) a b"

definition vec_add :: "real list \<Rightarrow> real list \<Rightarrow> real list" where
  "vec_add a b = map2 (+) a b"

definition vec_scale :: "real list \<Rightarrow> real \<Rightarrow> real list" where
  "vec_scale a c = map (\<lambda>x. x * c) a"

definition np_diff_axis0 :: "real list list \<Rightarrow> real list list" where
  "np_diff_axis0 rows = map2 vec_sub (tl rows) (butlast rows)"

definition np_mean_axis0 :: "nat \<Rightarrow> real list list \<Rightarrow> real list" where
  "np_mean_axis0 width rows =
     map (\<lambda>k. sum_list (map (\<lambda>r. r ! k) rows) / real (length rows)) [0..<width]"

definition clamp_percent :: "real \<Rightarrow> real" where
  "clamp_percent x = max 0 (min 100 x)"

record predicted_usage =
  pred_cpu_usage :: real
  pred_memory_usage :: real
  pred_gpu_usage :: real
  pred_storage_usage :: real

text \<open>
  \<^verbatim>\<open>_neural_predict\<close>. The rows have six columns, the width of
  \<^verbatim>\<open>np.zeros(6)\<close> and of every feature vector.
\<close>

definition neural_predict :: "real list list \<Rightarrow> int \<Rightarrow> predicted_usage" where
  "neural_predict features horizon =
     (let current_usage = last features;
          trend = (if length features \<ge> 5
                   then np_mean_axis0 6 (np_diff_axis0 (last_n 5 features))
                   else replicate 6 0);
          future_usage = vec_add current_usage (vec_scale trend (real_of_int horizon / 30))
      in \<lparr>pred_cpu_usage = clamp_percent (future_usage ! 0 * 100),
          pred_memory_usage = clamp_percent (future_usage ! 1 * 100),
          pred_gpu_usage = clamp_percent (future_usage ! 2 * 100),
          pred_storage_usage = clamp_percent (future_usage ! 3 * 100)\<rparr>)"

record recommendation =
  rec_resource :: string
  rec_action :: string
  rec_urgency :: string
  rec_description :: string
  rec_suggested_action :: string

definition generate_resource_recommendations :: "predicted_usage \<Rightarrow> recommendation list" where
  "generate_resource_recommendations predictions =
     (if pred_cpu_usage predictions > 85
      then [\<lparr>rec_resource = ''CPU'', rec_action = ''scale_up'', rec_urgency = ''high'',
             rec_description = ''CPU usage predicted to exceed 85%'',
             rec_suggested_action = ''Add 2 more CPU cores or scale horizontally''\<rparr>]
      else if pred_cpu_usage predictions < 30
      then [\<lparr>rec_resource = ''CPU'', rec_action = ''scale_down'', rec_urgency = ''low'',
             rec_description = ''CPU usage predicted to be below 30%'',
             rec_suggested_action = ''Consider reducing CPU allocation''\<rparr>]
      else [])
     @ (if pred_memory_usage predictions > 90
        then [\<lparr>rec_resource = ''Memory'', rec_action = ''scale_up'', rec_urgency = ''critical'',
               rec_description = ''Memory usage predicted to exceed 90%'',
               rec_suggested_action = ''Increase memory allocation immediately''\<rparr>]
        else [])
     @ (if pred_gpu_usage predictions > 80
        then [\<lparr>rec_resource = ''GPU'', rec_action = ''optimize'', rec_urgency = ''medium'',
               rec_description = ''GPU usage predicted to be high'',
               rec_suggested_action = ''Enable model quantization or batch optimization''\<rparr>]
        else [])"

text \<open>\<^verbatim>\<open>np.var\<close>: the population variance.\<close>

definition np_var :: "real list \<Rightarrow> real" where
  "np_var xs =
     (let mu = sum_list xs / real (length xs)
      in sum_list (map (\<lambda>x. (x - mu) * (x - mu)) xs) / real (length xs))"

definition calculate_prediction_confidence :: "ResourceMetrics list \<Rightarrow> real" where
  "calculate_prediction_confidence resource_history =
     (if length resource_history < 50 then 6 / 10
      else let recent_cpu = map cpu_usage (last_n 20 resource_history);
               cpu_variance = np_var recent_cpu;
               confidence = max (5 / 10) (1 - cpu_variance / 1000)
           in min (95 / 100) confidence)"

text \<open>
  The dictionaries \<^verbatim>\<open>predict_resource_needs\<close> returns: without a prediction and with a
  reason; with the horizon, the prediction, its recommendations and the confidence; and,
  from the handler, without a prediction and with the text of an exception. With samples
  and a horizon of the types above no statement of the \<^verbatim>\<open>try\<close> block raises, so the
  function below never returns the third.
\<close>

datatype prediction_result =
  InsufficientData string
| Prediction int predicted_usage "recommendation list" real
| PredictionFailed string

definition predict_resource_needs :: "ResourceMetrics list \<Rightarrow> int \<Rightarrow> prediction_result" where
  "predict_resource_needs resource_history time_horizon_minutes =
     (if length resource_history < 10 then InsufficientData ''Insufficient historical data''
      else let recent_metrics = last_n 10 resource_history;
               features = extract_prediction_features recent_metrics;
               predictions = neural_predict features time_horizon_minutes;
               recommendations = generate_resource_recommendations predictions
           in Prediction time_horizon_minutes predictions recommendations
                (calculate_prediction_confidence resource_history))"

text \<open>
  The projection in the words of the specification, for one column of values (oldest first):
  the mean of the four first differences of the last five values is the trend, and the
  projection is the latest value plus the trend times the horizon over thirty minutes.
\<close>

definition spec_trend :: "real list \<Rightarrow> real" where
  "spec_trend xs =
     (let l5 = last_n 5 xs
      in ((l5 ! 1 - l5 ! 0) + (l5 ! 2 - l5 ! 1) + (l5 ! 3 - l5 ! 2) + (l5 ! 4 - l5 ! 3)) / 4)"

definition spec_projection :: "real list \<Rightarrow> int \<Rightarrow> real" where
  "spec_projection xs horizon = last xs + spec_trend xs * (real_of_int horizon / 30)"

text \<open>A history of ten samples, a minute apart, whose CPU usage rises by five points each.\<close>

definition ramp_history :: "ResourceMetrics list" where
  "ramp_history =
     map (\<lambda>k. \<lparr>cpu_usage = 10 + 5 * real k, memory_usage = 50, gpu_usage = 0,
                storage_usage = 25, network_io = 30,
                timestamp = \<lparr>dt_mktime = 60 * real k, dt_weekday = 0\<rparr>\<rparr>) [0..<10]"

subsection \<open>The job queue: \<^verbatim>\<open>asyncio.PriorityQueue\<close> over \<^verbatim>\<open>heapq\<close>\<close>

text \<open>
  The scheduler puts the tuples \<^verbatim>\<open>(job_priority, job_id, job)\<close> into an
  \<^verbatim>\<open>asyncio.PriorityQueue\<close>, whose \<^verbatim>\<open>_put\<close> and \<^verbatim>\<open>_get\<close> are \<^verbatim>\<open>heapq.heappush\<close> and
  \<^verbatim>\<open>heapq.heappop\<close> on a list. CPython binds these two names to the functions of its
  \<^verbatim>\<open>_heapq\<close> module, which work on the list in place and exchange two entries at each
  step; the heap is modelled as that list. A comparison that raises leaves the list as the
  steps before it made it, and the functions below return that list with the exception.
\<close>

type_synonym entry = "int \<times> string \<times> job"

text \<open>
  Python's \<^verbatim>\<open><\<close> on two such tuples: the first position where they differ decides.
  Integers and strings are ordered (strings by code points, a proper prefix first);
  two different dictionaries are not, and comparing them raises \<^verbatim>\<open>TypeError\<close>.
\<close>

definition entry_lt :: "entry \<Rightarrow> entry \<Rightarrow> py_error + bool" where
  "entry_lt a b =
     (case a of (p1, i1, j1) \<Rightarrow> case b of (p2, i2, j2) \<Rightarrow>
        if p1 \<noteq> p2 then Inr (p1 < p2)
        else if i1 \<noteq> i2 then Inr (i1 < i2)
        else if j1 \<noteq> j2 then Inl TypeError
        else Inr False)"

definition swap :: "'a list \<Rightarrow> nat \<Rightarrow> nat \<Rightarrow> 'a list" where
  "swap xs i k = xs[i := xs ! k, k := xs ! i]"

text \<open>
  \<^verbatim>\<open>siftdown(heap, startpos, pos)\<close>: the entry at \<open>pos\<close> climbs while it is below its
  parent. The result is the exception, if a comparison raised one, and the list.
\<close>

function siftdown_loop :: "entry list \<Rightarrow> nat \<Rightarrow> nat \<Rightarrow> py_error option \<times> entry list" where
  "siftdown_loop heap startpos pos =
     (if pos > startpos then
        (let parentpos = (pos - 1) div 2
         in case entry_lt (heap ! pos) (heap ! parentpos) of
              Inl e \<Rightarrow> (Some e, heap)
            | Inr lt \<Rightarrow>
                if lt then siftdown_loop (swap heap parentpos pos) startpos parentpos
                else (None, heap))
      else (None, heap))"
  by pat_completeness auto
termination
  by (relation "measure (\<lambda>(heap, startpos, pos). pos)") auto

declare siftdown_loop.simps [simp del]

definition siftdown :: "entry list \<Rightarrow> nat \<Rightarrow> nat \<Rightarrow> py_error option \<times> entry list" where
  "siftdown heap startpos pos =
     (if pos \<ge> length heap then (Some IndexError, heap)
      else siftdown_loop heap startpos pos)"

text \<open>
  \<^verbatim>\<open>siftup(heap, pos)\<close>: the entry at \<open>pos\<close> is exchanged with its smaller child until it
  is at a leaf, and then climbs from there. The two children are compared only when both
  exist. The loop returns the exception, the list and the position reached.
\<close>

function siftup_loop ::
  "entry list \<Rightarrow> nat \<Rightarrow> nat \<Rightarrow> py_error option \<times> entry list \<times> nat"
where
  "siftup_loop heap endpos pos =
     (if pos < endpos div 2 then
        (let childpos = 2 * pos + 1
         in case (if childpos + 1 < endpos
                  then (case entry_lt (heap ! childpos) (heap ! (childpos + 1)) of
                          Inl e \<Rightarrow> Inl e
                        | Inr lt \<Rightarrow> Inr (if lt then childpos else childpos + 1))
                  else Inr childpos) of
              Inl e \<Rightarrow> (Some e, heap, pos)
            | Inr childpos \<Rightarrow> siftup_loop (swap heap childpos pos) endpos childpos)
      else (None, heap, pos))"
  by pat_completeness auto
termination
  by (relation "measure (\<lambda>(heap, endpos, pos). endpos - pos)") (auto split: if_splits sum.splits)

declare siftup_loop.simps [simp del]

definition siftup :: "entry list \<Rightarrow> nat \<Rightarrow> py_error option \<times> entry list" where
  "siftup heap pos =
     (if pos \<ge> length heap then (Some IndexError, heap)
      else (case siftup_loop heap (length heap) pos of
              (Some e, heap', pos') \<Rightarrow> (Some e, heap')
            | (None, heap', pos') \<Rightarrow> siftdown heap' pos pos'))"

text \<open>\<^verbatim>\<open>heappush\<close> appends the item and lets it climb.\<close>

definition heappush :: "entry list \<Rightarrow> entry \<Rightarrow> py_error option \<times> entry list" where
  "heappush heap item = siftdown (heap @ [item]) 0 (length (heap @ [item]) - 1)"

text \<open>
  \<^verbatim>\<open>heappop\<close> removes the last entry, puts it in the place of the first and sifts it;
  the entry that was first is returned, or is gone when a comparison raises.
\<close>

definition heappop :: "entry list \<Rightarrow> (py_error + entry) \<times> entry list" where
  "heappop heap =
     (if heap = [] then (Inl IndexError, heap)
      else let lastelt = last heap;
               heap = butlast heap
           in if heap = [] then (Inr lastelt, heap)
              else (let returnitem = heap ! 0
                    in case siftup (heap[0 := lastelt]) 0 of
                         (Some e, heap') \<Rightarrow> (Inl e, heap')
                       | (None, heap') \<Rightarrow> (Inr returnitem, heap')))"

text \<open>
  The order the comparisons follow when they return: the pair of priority and job id,
  lexicographically. A list is a heap when no entry is below its parent in this order.
\<close>

definition ekey :: "entry \<Rightarrow> int \<times> string" where
  "ekey e = (fst e, fst (snd e))"

definition parent :: "nat \<Rightarrow> nat" where
  "parent i = (i - 1) div 2"

definition is_heap :: "entry list \<Rightarrow> bool" where
  "is_heap h = (\<forall>i \<in> {1..<length h}. ekey (h ! parent i) \<le> ekey (h ! i))"

text \<open>Entries that Python can compare: equal priority and id only on equal jobs.\<close>

definition comparable :: "entry set \<Rightarrow> bool" where
  "comparable S = (\<forall>a \<in> S. \<forall>b \<in> S. ekey a = ekey b \<longrightarrow> a = b)"

text \<open>
  The invariants of the two loops. While an entry climbs from \<open>pos\<close>, every other entry
  is at or above its parent and the children of \<open>pos\<close> are at or above its parent. While
  an entry sinks from \<open>pos\<close>, every entry other than \<open>pos\<close> and its children is at or
  above its parent, and the children of \<open>pos\<close> are at or above its parent.
\<close>

definition sift_down_inv :: "entry list \<Rightarrow> nat \<Rightarrow> bool" where
  "sift_down_inv h pos \<longleftrightarrow>
     pos < length h
     \<and> (\<forall>i. 0 < i \<and> i < length h \<and> i \<noteq> pos \<longrightarrow> ekey (h ! parent i) \<le> ekey (h ! i))
     \<and> (\<forall>c. 0 < pos \<and> 0 < c \<and> c < length h \<and> parent c = pos \<longrightarrow>
            ekey (h ! parent pos) \<le> ekey (h ! c))"

definition sift_up_inv :: "entry list \<Rightarrow> nat \<Rightarrow> bool" where
  "sift_up_inv h pos \<longleftrightarrow>
     pos < length h
     \<and> (\<forall>i. 0 < i \<and> i < length h \<and> i \<noteq> pos \<and> parent i \<noteq> pos \<longrightarrow>
            ekey (h ! parent i) \<le> ekey (h ! i))
     \<and> (\<forall>c. 0 < pos \<and> 0 < c \<and> c < length h \<and> parent c = pos \<longrightarrow>
            ekey (h ! parent pos) \<le> ekey (h ! c))"

text \<open>
  One iteration of each loop, and the length of the list, which the termination of the
  drain loop below rests on.
\<close>

lemma swap_length [simp]: "length (swap xs i k) = length xs"
  by (simp add: swap_def)

lemma swap_mset: "i < length xs \<Longrightarrow> k < length xs \<Longrightarrow> mset (swap xs i k) = mset xs"
  unfolding swap_def by (rule mset_swap)

lemma parent_less: "0 < i \<Longrightarrow> parent i < i"
  by (simp add: parent_def)

lemma siftdown_loop_stop:
  "\<not> s < p \<Longrightarrow> siftdown_loop h s p = (None, h)"
  by (subst siftdown_loop.simps) simp

lemma siftdown_loop_step:
  "s < p \<Longrightarrow> siftdown_loop h s p =
     (case entry_lt (h ! p) (h ! parent p) of
        Inl e \<Rightarrow> (Some e, h)
      | Inr lt \<Rightarrow> if lt then siftdown_loop (swap h (parent p) p) s (parent p) else (None, h))"
  by (subst siftdown_loop.simps) (simp add: parent_def Let_def cong: sum.case_cong if_cong)

lemma siftup_loop_stop:
  "\<not> 2 * p + 1 < e \<Longrightarrow> siftup_loop h e p = (None, h, p)"
  by (subst siftup_loop.simps) (simp, arith)

lemma siftup_loop_left:
  "2 * p + 1 < e \<Longrightarrow> \<not> 2 * p + 2 < e \<Longrightarrow>
   siftup_loop h e p = siftup_loop (swap h (2 * p + 1) p) e (2 * p + 1)"
  by (subst siftup_loop.simps) (simp, arith)

lemma siftup_loop_both:
  "2 * p + 2 < e \<Longrightarrow>
   siftup_loop h e p =
     (case entry_lt (h ! (2 * p + 1)) (h ! (2 * p + 2)) of
        Inl err \<Rightarrow> (Some err, h, p)
      | Inr lt \<Rightarrow> if lt then siftup_loop (swap h (2 * p + 1) p) e (2 * p + 1)
                  else siftup_loop (swap h (2 * p + 2) p) e (2 * p + 2))"
  by (subst siftup_loop.simps) (simp add: Let_def split: sum.splits, arith)

lemma siftdown_loop_mset: "p < length h \<Longrightarrow> mset (snd (siftdown_loop h s p)) = mset h"
proof (induction p arbitrary: h rule: less_induct)
  case (less p)
  show ?case
  proof (cases "s < p")
    case False
    then show ?thesis by (simp add: siftdown_loop_stop)
  next
    case True
    then have pp: "parent p < p" by (simp add: parent_less)
    with less.prems have "mset (swap h (parent p) p) = mset h" by (simp add: swap_mset)
    with less.IH[OF pp, of "swap h (parent p) p"] pp less.prems True show ?thesis
      by (simp add: siftdown_loop_step split: sum.splits)
  qed
qed

lemma siftup_loop_mset:
  "p < e \<Longrightarrow> e \<le> length h \<Longrightarrow>
   mset (fst (snd (siftup_loop h e p))) = mset h \<and> snd (snd (siftup_loop h e p)) < e"
proof (induction "e - p" arbitrary: h p rule: less_induct)
  case less
  have step: "mset (fst (snd (siftup_loop (swap h c p) e c))) = mset h
      \<and> snd (snd (siftup_loop (swap h c p) e c)) < e"
    if c: "p < c" "c < e" for c
  proof -
    from c less.prems have "mset (swap h c p) = mset h" by (simp add: swap_mset)
    with less.hyps[of c "swap h c p"] c less.prems show ?thesis by simp
  qed
  consider "\<not> 2 * p + 1 < e" | "2 * p + 1 < e" "\<not> 2 * p + 2 < e" | "2 * p + 2 < e"
    by linarith
  then show ?case
  proof cases
    case 1
    with less.prems show ?thesis by (simp add: siftup_loop_stop)
  next
    case 2
    with step[of "2 * p + 1"] show ?thesis by (simp add: siftup_loop_left)
  next
    case 3
    with step[of "2 * p + 1"] step[of "2 * p + 2"] less.prems show ?thesis
      by (simp add: siftup_loop_both split: sum.splits)
  qed
qed

lemma siftdown_mset: "mset (snd (siftdown h s p)) = mset h"
  by (simp add: siftdown_def siftdown_loop_mset)

lemma siftup_mset: "mset (snd (siftup h p)) = mset h"
proof (cases "p < length h")
  case False
  then show ?thesis by (simp add: siftup_def)
next
  case True
  obtain r h' p' where r: "siftup_loop h (length h) p = (r, h', p')"
    by (cases "siftup_loop h (length h) p")
  with siftup_loop_mset[OF True order_refl] have "mset h' = mset h" by simp
  with True r show ?thesis
    by (cases r) (simp_all add: siftup_def siftdown_mset)
qed

lemma heappush_mset: "mset (snd (heappush h x)) = add_mset x (mset h)"
  by (simp add: heappush_def siftdown_mset)

lemma heappop_mset: "h \<noteq> [] \<Longrightarrow> add_mset (h ! 0) (mset (snd (heappop h))) = mset h"
proof (cases h rule: rev_cases)
  case Nil
  assume "h \<noteq> []"
  with Nil show ?thesis by simp
next
  case (snoc b l)
  show ?thesis
  proof (cases b)
    case Nil
    with snoc show ?thesis by (simp add: heappop_def)
  next
    case (Cons y ys)
    obtain r h' where r: "siftup ((y # ys)[0 := l]) 0 = (r, h')"
      by (cases "siftup ((y # ys)[0 := l]) 0")
    with siftup_mset[of "(y # ys)[0 := l]" 0] have "mset h' = add_mset l (mset ys)" by simp
    with snoc Cons r show ?thesis
      by (cases r) (simp_all add: heappop_def)
  qed
qed

lemma heappop_length: "h \<noteq> [] \<Longrightarrow> Suc (length (snd (heappop h))) = length h"
proof -
  assume "h \<noteq> []"
  from heappop_mset[OF this]
  have "size (add_mset (h ! 0) (mset (snd (heappop h)))) = size (mset h)"
    by (rule arg_cong)
  then show ?thesis by simp
qed

lemma heappop_first: "fst (heappop h) = Inr x \<Longrightarrow> x = h ! 0"
proof (cases h rule: rev_cases)
  case Nil
  assume "fst (heappop h) = Inr x"
  with Nil show ?thesis by (simp add: heappop_def)
next
  case (snoc b l)
  assume x: "fst (heappop h) = Inr x"
  show ?thesis
  proof (cases b)
    case Nil
    with snoc x show ?thesis by (simp add: heappop_def)
  next
    case (Cons y ys)
    obtain r h' where "siftup ((y # ys)[0 := l]) 0 = (r, h')"
      by (cases "siftup ((y # ys)[0 := l]) 0")
    with snoc Cons x show ?thesis
      by (cases r) (simp_all add: heappop_def)
  qed
qed

subsection \<open>\<^verbatim>\<open>WorkloadAwareScheduler\<close>: admission, execution, draining\<close>

text \<open>
  The configuration dictionary, of which the scheduler reads the key
  \<^verbatim>\<open>resource_thresholds\<close>: a dictionary from resource names to thresholds, given as the
  list of its items.
\<close>

record config =
  resource_thresholds :: "(string \<times> real) list option"

text \<open>
  The usage dictionary of \<^verbatim>\<open>_get_current_resource_usage\<close> and
  \<^verbatim>\<open>_update_resource_usage\<close>: its keys are always \<^verbatim>\<open>cpu\<close>, \<^verbatim>\<open>memory\<close> and \<^verbatim>\<open>gpu\<close>.
\<close>

record usage =
  u_cpu :: real
  u_memory :: real
  u_gpu :: real

definition usage_get :: "usage \<Rightarrow> string \<Rightarrow> real \<Rightarrow> real" where
  "usage_get current_metrics resource d =
     (if resource = ''cpu'' then u_cpu current_metrics
      else if resource = ''memory'' then u_memory current_metrics
      else if resource = ''gpu'' then u_gpu current_metrics
      else d)"

definition default_thresholds :: "(string \<times> real) list" where
  "default_thresholds = [(''cpu'', 80), (''memory'', 85), (''gpu'', 90)]"

definition can_execute_job :: "config \<Rightarrow> usage \<Rightarrow> bool" where
  "can_execute_job cfg current_metrics =
     (let thresholds = dict_get (resource_thresholds cfg) default_thresholds
      in list_all (\<lambda>(resource, threshold). usage_get current_metrics resource 0 < threshold)
           thresholds)"

record job_result =
  jr_status :: string
  jr_job_type :: string
  jr_output :: string

definition execute_job :: "job \<Rightarrow> job_result" where
  "execute_job j =
     \<lparr>jr_status = ''completed'',
      jr_job_type = dict_get (job_type j) ''inference'',
      jr_output = ''Result for '' @ dict_get (job_id j) ''unknown''\<rparr>"

definition update_resource_usage :: "job \<Rightarrow> usage \<Rightarrow> usage" where
  "update_resource_usage j current_metrics =
     (let resource_impact = dict_get (resource_weight j) 1
      in \<lparr>u_cpu = min 100 (u_cpu current_metrics + resource_impact * 10),
          u_memory = min 100 (u_memory current_metrics + resource_impact * 5),
          u_gpu = min 100 (u_gpu current_metrics + resource_impact * 15)\<rparr>)"

text \<open>
  An element of \<^verbatim>\<open>executed_jobs\<close>; the measured wall-clock \<^verbatim>\<open>execution_time\<close> is left out.
\<close>

record executed_job =
  ej_job_id :: string
  ej_result :: job_result

text \<open>
  The loop of \<^verbatim>\<open>_try_execute_jobs\<close>, run by one task at a time: what other tasks do
  to the queue while this one awaits is outside the function below. The queue is not empty
  when \<^verbatim>\<open>get\<close> is called, so \<^verbatim>\<open>get\<close> returns at once and the timeout does not fire. When
  a comparison inside \<^verbatim>\<open>get\<close> raises, the handler in the loop logs the exception and the
  loop goes on with the queue as \<^verbatim>\<open>heappop\<close> left it and the usage unchanged. The state is
  the queue, the usage, the jobs executed and the exceptions logged so far.
\<close>

function try_execute_loop ::
  "config \<Rightarrow> entry list \<Rightarrow> usage \<Rightarrow> executed_job list \<Rightarrow> py_error list \<Rightarrow>
   executed_job list \<times> py_error list \<times> entry list \<times> usage"
where
  "try_execute_loop cfg job_queue current_metrics executed logged =
     (if job_queue \<noteq> [] \<and> can_execute_job cfg current_metrics then
        (case fst (heappop job_queue) of
           Inl e \<Rightarrow>
             try_execute_loop cfg (snd (heappop job_queue)) current_metrics executed
               (logged @ [e])
         | Inr (priority, jid, j) \<Rightarrow>
             try_execute_loop cfg (snd (heappop job_queue)) (update_resource_usage j current_metrics)
               (executed @ [\<lparr>ej_job_id = jid, ej_result = execute_job j\<rparr>]) logged)
      else (executed, logged, job_queue, current_metrics))"
  by pat_completeness auto
termination
  by (relation "measure (\<lambda>(cfg, job_queue, current_metrics, executed, logged). length job_queue)")
     (auto dest: heappop_length)

declare try_execute_loop.simps [simp del]

record execution_result =
  jobs_executed :: nat
  executed_jobs :: "executed_job list"
  remaining_queue_size :: nat

text \<open>
  \<^verbatim>\<open>_try_execute_jobs\<close>, from the usage reading taken at its start: the dictionary it
  returns, the exceptions it logged and the queue it leaves.
\<close>

definition try_execute_jobs ::
  "config \<Rightarrow> usage \<Rightarrow> entry list \<Rightarrow> execution_result \<times> py_error list \<times> entry list"
where
  "try_execute_jobs cfg reading job_queue =
     (case try_execute_loop cfg job_queue reading [] [] of
        (ex, logged, job_queue', current_metrics) \<Rightarrow>
          (\<lparr>jobs_executed = length ex, executed_jobs = ex,
            remaining_queue_size = length job_queue'\<rparr>, logged, job_queue'))"

text \<open>Python's \<^verbatim>\<open>str\<close> of an integer, for the default job id.\<close>

fun str_of_nat :: "nat \<Rightarrow> string" where
  "str_of_nat n =
     (if n < 10 then [char_of (48 + n)]
      else str_of_nat (n div 10) @ [char_of (48 + n mod 10)])"

declare str_of_nat.simps [simp del]

definition str_of_int :: "int \<Rightarrow> string" where
  "str_of_int i = (if i < 0 then CHR ''-'' # str_of_nat (nat (- i)) else str_of_nat (nat i))"

text \<open>
  The tuple \<^verbatim>\<open>schedule_job\<close> puts into the queue; \<open>now\<close> is \<^verbatim>\<open>int(time.time())\<close>.
\<close>

definition entry_of :: "job \<Rightarrow> int \<Rightarrow> entry" where
  "entry_of j now =
     (calculate_job_priority j, dict_get (job_id j) (''job_'' @ str_of_int now), j)"

record schedule_result =
  sr_job_id :: string
  sr_priority :: int
  sr_queue_position :: nat
  sr_execution_result :: execution_result

text \<open>
  The two dictionaries of \<^verbatim>\<open>schedule_job\<close>: scheduled, or from its handler not scheduled
  with the exception.
\<close>

datatype schedule_outcome = Scheduled schedule_result | NotScheduled py_error

text \<open>
  \<^verbatim>\<open>schedule_job\<close>: the state is the queue, \<open>reading\<close> is the usage that
  \<^verbatim>\<open>_get_current_resource_usage\<close> reads. The result is the dictionary returned, the
  exceptions logged during the call and the queue after it. When a comparison inside
  \<^verbatim>\<open>put\<close> raises, the handler of \<^verbatim>\<open>schedule_job\<close> logs it and nothing is drained; the item
  is in the list all the same. Exceptions inside the drain are logged there and the call
  reports the job as scheduled.
\<close>

definition schedule_job ::
  "config \<Rightarrow> job \<Rightarrow> int \<Rightarrow> usage \<Rightarrow> entry list \<Rightarrow>
   schedule_outcome \<times> py_error list \<times> entry list"
where
  "schedule_job cfg j now reading job_queue =
     (let job_priority = calculate_job_priority j;
          jid = dict_get (job_id j) (''job_'' @ str_of_int now)
      in case heappush job_queue (job_priority, jid, j) of
           (Some e, job_queue) \<Rightarrow> (NotScheduled e, [e], job_queue)
         | (None, job_queue) \<Rightarrow>
             (case try_execute_jobs cfg reading job_queue of
                (execution_result, logged, job_queue) \<Rightarrow>
                  (Scheduled
                     \<lparr>sr_job_id = jid, sr_priority = job_priority,
                      sr_queue_position = length job_queue,
                      sr_execution_result = execution_result\<rparr>,
                   logged, job_queue)))"

text \<open>
  A sequence of calls, each with its job, clock and usage reading, from a given queue: the
  exceptions logged by all of them and the queue after the last.
\<close>

fun schedule_all ::
  "config \<Rightarrow> (job \<times> int \<times> usage) list \<Rightarrow> entry list \<Rightarrow> py_error list \<times> entry list"
where
  "schedule_all cfg [] job_queue = ([], job_queue)"
| "schedule_all cfg ((j, now, reading) # calls) job_queue =
     (case schedule_job cfg j now reading job_queue of
        (outcome, logged, job_queue') \<Rightarrow>
          (case schedule_all cfg calls job_queue' of
             (logged', job_queue'') \<Rightarrow> (logged @ logged', job_queue'')))"

text \<open>What executing a queue entry appends to \<^verbatim>\<open>executed_jobs\<close>.\<close>

definition executed_of :: "entry \<Rightarrow> executed_job" where
  "executed_of e = \<lparr>ej_job_id = fst (snd e), ej_result = execute_job (snd (snd e))\<rparr>"

text \<open>
  A scheduler with the default thresholds, an inference job with a given id, and usage
  readings of a busy, an idle and a nearly busy machine.
\<close>

definition default_config :: config where
  "default_config = \<lparr>resource_thresholds = None\<rparr>"

definition inference_job :: "string \<Rightarrow> job" where
  "inference_job n =
     \<lparr>job_id = Some n, job_type = Some ''inference'', urgency = Some ''normal'',
      resource_weight = None, estimated_duration_hours = None, carbon_priority = None,
      job_other = Map.empty\<rparr>"

definition busy :: usage where
  "busy = \<lparr>u_cpu = 80, u_memory = 40, u_gpu = 30\<rparr>"

definition idle :: usage where
  "idle = \<lparr>u_cpu = 10, u_memory = 40, u_gpu = 30\<rparr>"


text \<open>
  An inference job whose dictionary has one more key, which the scheduler does not read:
  it differs from the inference job with the same id, and the two cannot be compared.
\<close>

definition tagged_job :: "string \<Rightarrow> job" where
  "tagged_job n = (inference_job n)\<lparr>job_other := [''x'' \<mapsto> PNum 1]\<rparr>"

subsection \<open>\<^verbatim>\<open>CarbonAwareScheduler\<close>: packing into green windows, savings\<close>

record window =
  start_hour :: nat
  end_hour :: nat
  carbon_intensity :: real
  renewable_percentage :: real
  capacity :: real

text \<open>An element of \<^verbatim>\<open>scheduled_jobs\<close>. \<^verbatim>\<open>job.get('id')\<close> is \<open>None\<close> for a job without id.\<close>

record scheduled_job =
  sj_job_id :: "string option"
  scheduled_start :: nat
  scheduled_end :: nat
  sj_carbon_intensity :: real
  sj_renewable_percentage :: real
  sj_carbon_priority :: string


definition scheduled_entry :: "job \<Rightarrow> window \<Rightarrow> scheduled_job" where
  "scheduled_entry j w =
     \<lparr>sj_job_id = job_id j,
      scheduled_start = start_hour w,
      scheduled_end = end_hour w,
      sj_carbon_intensity = carbon_intensity w,
      sj_renewable_percentage = renewable_percentage w,
      sj_carbon_priority = dict_get (carbon_priority j) ''normal''\<rparr>"







text \<open>
  \<^verbatim>\<open>np.mean\<close> of a list, which is not a number on the empty list, and a division that
  fails on a zero divisor.
\<close>

definition np_mean :: "real list \<Rightarrow> py_error + real" where
  "np_mean xs = (if xs = [] then Inl NanResult else Inr (sum_list xs / real (length xs)))"

definition checked_div :: "real \<Rightarrow> real \<Rightarrow> py_error + real" where
  "checked_div a b = (if b = 0 then Inl ZeroDivisionError else Inr (a / b))"

text \<open>
  The dictionary of \<^verbatim>\<open>_calculate_carbon_savings\<close>: two keys for no jobs, three more
  otherwise.
\<close>

record carbon_savings =
  total_savings_kg_co2 :: real
  percentage_reduction :: real
  immediate_emissions_kg_co2 :: "real option"
  green_emissions_kg_co2 :: "real option"
  jobs_scheduled :: "nat option"

definition calculate_carbon_savings :: "scheduled_job list \<Rightarrow> py_error + carbon_savings" where
  "calculate_carbon_savings scheduled_jobs =
     (let total_jobs = length scheduled_jobs
      in if total_jobs = 0
         then Inr \<lparr>total_savings_kg_co2 = 0, percentage_reduction = 0,
                   immediate_emissions_kg_co2 = None, green_emissions_kg_co2 = None,
                   jobs_scheduled = None\<rparr>
         else
           (let immediate_intensity = 450
            in case np_mean (map sj_carbon_intensity scheduled_jobs) of
                 Inl e \<Rightarrow> Inl e
               | Inr green_avg_intensity \<Rightarrow>
                   (let immediate_emissions = real total_jobs * immediate_intensity / 1000;
                        green_emissions = real total_jobs * green_avg_intensity / 1000;
                        savings = immediate_emissions - green_emissions
                    in case (if immediate_emissions > 0
                             then (case checked_div savings immediate_emissions of
                                     Inl e \<Rightarrow> Inl e | Inr q \<Rightarrow> Inr (q * 100))
                             else Inr 0) of
                         Inl e \<Rightarrow> Inl e
                       | Inr percentage \<Rightarrow>
                           Inr \<lparr>total_savings_kg_co2 = max 0 savings,
                                 percentage_reduction = max 0 percentage,
                                 immediate_emissions_kg_co2 = Some immediate_emissions,
                                 green_emissions_kg_co2 = Some green_emissions,
                                 jobs_scheduled = Some total_jobs\<rparr>)))"

text \<open>
  The savings in the words of the specification: one kWh per job, emissions in kg at the
  baseline of 450 gCO2/kWh against the mean intensity of the scheduled jobs.
\<close>

definition spec_emissions_kg :: "nat \<Rightarrow> real \<Rightarrow> real" where
  "spec_emissions_kg n intensity = real n * 1 * intensity / 1000"

definition mean_intensity :: "scheduled_job list \<Rightarrow> real" where
  "mean_intensity js = sum_list (map sj_carbon_intensity js) / real (length js)"

section \<open>Theorems\<close>

subsection \<open>Job priority\<close>

lemma type_priorities_get: "dict_get (map_of type_priorities t) 50 = spec_type_offset t"
  by (simp add: type_priorities_def spec_type_offset_def dict_get_def)

lemma urgency_modifiers_get: "dict_get (map_of urgency_modifiers u) 0 = spec_urgency_modifier u"
  by (simp add: urgency_modifiers_def spec_urgency_modifier_def dict_get_def)

lemma calculate_job_priority_spec:
  "calculate_job_priority j =
     spec_priority (dict_get (job_type j) ''inference'') (dict_get (urgency j) ''normal'')
       (dict_get (resource_weight j) 1)"
  by (simp add: calculate_job_priority_def spec_priority_def Let_def
      type_priorities_get urgency_modifiers_get)

lemma spec_type_offset_ge: "10 \<le> spec_type_offset t"
  by (simp add: spec_type_offset_def)

lemma spec_urgency_modifier_values:
  "spec_urgency_modifier ''critical'' = - 30"
  "spec_urgency_modifier ''high'' = - 15"
  "spec_urgency_modifier ''normal'' = 0"
  "spec_urgency_modifier ''low'' = 15"
  by (simp_all add: spec_urgency_modifier_def)

lemma spec_priority_urgency_order:
  "spec_priority t ''critical'' w < spec_priority t ''high'' w"
  "spec_priority t ''high'' w < spec_priority t ''normal'' w"
  "spec_priority t ''normal'' w < spec_priority t ''low'' w"
  using spec_type_offset_ge[of t]
  by (simp_all add: spec_priority_def spec_urgency_modifier_values)

text \<open>
  Claim C1. For every job descriptor the computed priority is the specified one: base 100,
  plus the offset of the type (training 50, inference 10, batch_processing 30,
  model_optimization 40, any other type 50), plus the modifier of the urgency (critical -30,
  high -15, normal 0, low 15, any other urgency 0), plus 20 for a resource weight above 2,
  and at least 1. An absent key reads as inference, normal and weight 1. For jobs that
  differ only in urgency, critical is below high, high below normal, normal below low.
\<close>

theorem C1_priority_formula:
  "calculate_job_priority j =
     spec_priority (dict_get (job_type j) ''inference'') (dict_get (urgency j) ''normal'')
       (dict_get (resource_weight j) 1)
   \<and> calculate_job_priority (j\<lparr>urgency := Some ''critical''\<rparr>)
       < calculate_job_priority (j\<lparr>urgency := Some ''high''\<rparr>)
   \<and> calculate_job_priority (j\<lparr>urgency := Some ''high''\<rparr>)
       < calculate_job_priority (j\<lparr>urgency := Some ''normal''\<rparr>)
   \<and> calculate_job_priority (j\<lparr>urgency := Some ''normal''\<rparr>)
       < calculate_job_priority (j\<lparr>urgency := Some ''low''\<rparr>)"
proof -
  have upd: "calculate_job_priority (j\<lparr>urgency := Some u\<rparr>) =
      spec_priority (dict_get (job_type j) ''inference'') u (dict_get (resource_weight j) 1)" for u
    by (simp add: calculate_job_priority_spec dict_get_def)
  show ?thesis
    unfolding upd by (simp add: spec_priority_urgency_order calculate_job_priority_spec [symmetric])
qed

subsection \<open>The heap of the job queue\<close>

text \<open>
  When a comparison of two entries returns, it is the comparison of their pairs of priority
  and job id. So every push and pop in which no comparison raises keeps the list a heap in
  that order, and such a pop returns the root, which is least.
\<close>

lemma entry_lt_Inr: "entry_lt a b = Inr t \<Longrightarrow> t = (ekey a < ekey b)"
  by (auto simp: entry_lt_def ekey_def less_prod_def split: prod.splits if_splits)

lemma entry_lt_comparable:
  "ekey a = ekey b \<longrightarrow> a = b \<Longrightarrow> entry_lt a b = Inr (ekey a < ekey b)"
  by (auto simp: entry_lt_def ekey_def less_prod_def split: prod.splits if_splits)

lemma parent_child: "0 < c \<Longrightarrow> parent c = p \<longleftrightarrow> c = 2 * p + 1 \<or> c = 2 * p + 2"
  unfolding parent_def by arith

lemma is_heap_iff:
  "is_heap h \<longleftrightarrow> (\<forall>i. 0 < i \<and> i < length h \<longrightarrow> ekey (h ! parent i) \<le> ekey (h ! i))"
  by (auto simp: is_heap_def)

lemma swap_nth:
  "i < length xs \<Longrightarrow> k < length xs \<Longrightarrow>
   swap xs i k ! n = (if n = k then xs ! i else if n = i then xs ! k else xs ! n)"
  by (simp add: swap_def nth_list_update)

lemma sift_down_inv_place:
  assumes inv: "sift_down_inv h pos"
    and top: "pos = 0 \<or> ekey (h ! parent pos) \<le> ekey (h ! pos)"
  shows "is_heap h"
  unfolding is_heap_iff
proof (intro allI impI)
  fix i assume i: "0 < i \<and> i < length h"
  show "ekey (h ! parent i) \<le> ekey (h ! i)"
  proof (cases "i = pos")
    case True
    with i top show ?thesis by auto
  next
    case False
    with inv i show ?thesis by (simp add: sift_down_inv_def)
  qed
qed

lemma sift_down_inv_step:
  assumes inv: "sift_down_inv h pos" and pos: "0 < pos"
    and lt: "ekey (h ! pos) < ekey (h ! parent pos)"
  shows "sift_down_inv (swap h (parent pos) pos) (parent pos)"
proof -
  let ?pp = "parent pos"
  let ?h = "swap h ?pp pos"
  from inv have pl: "pos < length h"
    and edges: "\<And>k. 0 < k \<Longrightarrow> k < length h \<Longrightarrow> k \<noteq> pos \<Longrightarrow> ekey (h ! parent k) \<le> ekey (h ! k)"
    and grand: "\<And>c. 0 < c \<Longrightarrow> c < length h \<Longrightarrow> parent c = pos \<Longrightarrow> ekey (h ! ?pp) \<le> ekey (h ! c)"
    using pos by (auto simp: sift_down_inv_def)
  have pp: "?pp < pos" using pos by (rule parent_less)
  then have ppl: "?pp < length h" using pl by simp
  note nth = swap_nth[OF ppl pl]
  have e: "ekey (?h ! parent i) \<le> ekey (?h ! i)"
    if i: "0 < i" "i < length h" "i \<noteq> ?pp" for i
  proof -
    have pi: "parent i < i" using i(1) by (rule parent_less)
    show ?thesis
    proof (cases "i = pos")
      case True
      with pp lt show ?thesis by (simp add: nth)
    next
      case False
      note ne = this
      show ?thesis
      proof (cases "parent i = pos")
        case True
        with grand[OF i(1) i(2)] ne i(3) show ?thesis by (simp add: nth)
      next
        case np: False
        show ?thesis
        proof (cases "parent i = ?pp")
          case True
          from edges[OF i(1) i(2) ne] True have "ekey (h ! ?pp) \<le> ekey (h ! i)" by simp
          with lt have "ekey (h ! pos) \<le> ekey (h ! i)" by simp
          with True ne i(3) pp show ?thesis by (simp add: nth)
        next
          case False
          with np ne i(3) edges[OF i(1) i(2) ne] show ?thesis by (simp add: nth)
        qed
      qed
    qed
  qed
  have g: "ekey (?h ! parent ?pp) \<le> ekey (?h ! c)"
    if c: "0 < ?pp" "0 < c" "c < length h" "parent c = ?pp" for c
  proof -
    have ppp: "parent ?pp < ?pp" using c(1) by (rule parent_less)
    have up: "ekey (h ! parent ?pp) \<le> ekey (h ! ?pp)"
      using edges[of ?pp] c(1) pp ppl by simp
    have cpp: "c \<noteq> ?pp" using parent_less[OF c(2)] c(4) by simp
    show ?thesis
    proof (cases "c = pos")
      case True
      with up ppp pp show ?thesis by (simp add: nth)
    next
      case False
      from edges[OF c(2) c(3) False] c(4) have "ekey (h ! ?pp) \<le> ekey (h ! c)" by simp
      with up have "ekey (h ! parent ?pp) \<le> ekey (h ! c)" by (rule order_trans)
      with False cpp ppp pp show ?thesis by (simp add: nth)
    qed
  qed
  show ?thesis
    unfolding sift_down_inv_def using ppl e g by auto
qed

lemma siftdown_loop_heap:
  "sift_down_inv h pos \<Longrightarrow> siftdown_loop h 0 pos = (None, h') \<Longrightarrow> is_heap h'"
proof (induction pos arbitrary: h rule: less_induct)
  case (less pos)
  show ?case
  proof (cases "0 < pos")
    case False
    with less.prems show ?thesis
      by (auto simp: siftdown_loop_stop intro: sift_down_inv_place)
  next
    case True
    then have pp: "parent pos < pos" by (simp add: parent_less)
    from True less.prems(2) obtain lt where lt: "entry_lt (h ! pos) (h ! parent pos) = Inr lt"
      by (auto simp: siftdown_loop_step split: sum.splits)
    then have lt_eq: "lt = (ekey (h ! pos) < ekey (h ! parent pos))" by (rule entry_lt_Inr)
    show ?thesis
    proof (cases lt)
      case False
      with True lt less.prems(2) have "h' = h" by (simp add: siftdown_loop_step)
      moreover from False lt_eq have "ekey (h ! parent pos) \<le> ekey (h ! pos)" by simp
      ultimately show ?thesis using less.prems(1) by (simp add: sift_down_inv_place)
    next
      case T: True
      with True lt less.prems(2)
      have "siftdown_loop (swap h (parent pos) pos) 0 (parent pos) = (None, h')"
        by (simp add: siftdown_loop_step)
      moreover have "sift_down_inv (swap h (parent pos) pos) (parent pos)"
        using less.prems(1) True T lt_eq by (intro sift_down_inv_step) simp_all
      ultimately show ?thesis using less.IH[OF pp] by blast
    qed
  qed
qed

lemma sift_up_inv_leaf:
  assumes inv: "sift_up_inv h pos" and leaf: "\<not> 2 * pos + 1 < length h"
  shows "sift_down_inv h pos"
proof -
  have nochild: "parent c \<noteq> pos" if "0 < c" "c < length h" for c
    using that leaf by (auto simp: parent_child)
  with inv show ?thesis
    unfolding sift_down_inv_def sift_up_inv_def by auto
qed

lemma sift_up_inv_step:
  assumes inv: "sift_up_inv h pos"
    and c: "0 < c" "c < length h" "parent c = pos"
    and least: "\<And>i. 0 < i \<Longrightarrow> i < length h \<Longrightarrow> parent i = pos \<Longrightarrow> ekey (h ! c) \<le> ekey (h ! i)"
  shows "sift_up_inv (swap h c pos) c"
proof -
  let ?h = "swap h c pos"
  from inv have pl: "pos < length h"
    and edges: "\<And>k. 0 < k \<Longrightarrow> k < length h \<Longrightarrow> k \<noteq> pos \<Longrightarrow> parent k \<noteq> pos \<Longrightarrow>
                 ekey (h ! parent k) \<le> ekey (h ! k)"
    and grand: "\<And>k. 0 < pos \<Longrightarrow> 0 < k \<Longrightarrow> k < length h \<Longrightarrow> parent k = pos \<Longrightarrow>
                 ekey (h ! parent pos) \<le> ekey (h ! k)"
    by (auto simp: sift_up_inv_def)
  have pc: "pos < c" using c(1) c(3) parent_less[of c] by simp
  note nth = swap_nth[OF c(2) pl]
  have e: "ekey (?h ! parent i) \<le> ekey (?h ! i)"
    if i: "0 < i" "i < length h" "i \<noteq> c" "parent i \<noteq> c" for i
  proof (cases "parent i = pos")
    case True
    then have "i \<noteq> pos" using parent_less[OF i(1)] by auto
    with True least[OF i(1) i(2) True] i(3) show ?thesis by (simp add: nth)
  next
    case False
    show ?thesis
    proof (cases "i = pos")
      case True
      then have p0: "0 < pos" using i(1) by simp
      from grand[OF this c] have "ekey (h ! parent pos) \<le> ekey (h ! c)" .
      moreover have "parent pos \<noteq> pos" using parent_less[OF p0] by simp
      moreover have "parent pos \<noteq> c" using parent_less[OF p0] pc by simp
      ultimately show ?thesis using True by (simp add: nth)
    next
      case F2: False
      with False i(3) i(4) edges[OF i(1) i(2) F2 False] show ?thesis by (simp add: nth)
    qed
  qed
  have g: "ekey (?h ! parent c) \<le> ekey (?h ! k)"
    if k: "0 < k" "k < length h" "parent k = c" for k
  proof -
    have kc: "c < k" using parent_less[OF k(1)] k(3) by simp
    then have "k \<noteq> pos" "k \<noteq> c" using pc by simp_all
    moreover have "parent k \<noteq> pos" using k(3) pc by simp
    ultimately show ?thesis using edges[OF k(1) k(2)] k(3) c(3) pc by (simp add: nth)
  qed
  show ?thesis
    unfolding sift_up_inv_def using c(2) e g by auto
qed

lemma siftup_loop_heap:
  "sift_up_inv h pos \<Longrightarrow> e = length h \<Longrightarrow> siftup_loop h e pos = (None, h', p') \<Longrightarrow>
   sift_down_inv h' p'"
proof (induction "e - pos" arbitrary: h pos rule: less_induct)
  case less
  have step: "sift_down_inv h' p'"
    if c: "0 < c" "c < e" "parent c = pos"
      and least: "\<And>i. 0 < i \<Longrightarrow> i < length h \<Longrightarrow> parent i = pos \<Longrightarrow> ekey (h ! c) \<le> ekey (h ! i)"
      and run: "siftup_loop (swap h c pos) e c = (None, h', p')" for c
  proof -
    have pc: "pos < c" using c(1) c(3) parent_less[of c] by simp
    have "sift_up_inv (swap h c pos) c"
      using less.prems(1) c less.prems(2) least by (intro sift_up_inv_step) simp_all
    with less.hyps[of c "swap h c pos"] pc c(2) less.prems(2) run show ?thesis by simp
  qed
  consider "\<not> 2 * pos + 1 < e" | "2 * pos + 1 < e" "\<not> 2 * pos + 2 < e" | "2 * pos + 2 < e"
    by linarith
  then show ?case
  proof cases
    case 1
    with less.prems show ?thesis by (simp add: siftup_loop_stop sift_up_inv_leaf)
  next
    case 2
    have "ekey (h ! (2 * pos + 1)) \<le> ekey (h ! i)"
      if "0 < i" "i < length h" "parent i = pos" for i
      using that 2 less.prems(2) by (auto simp: parent_child)
    with 2 less.prems(3) step[of "2 * pos + 1"] show ?thesis
      by (simp add: siftup_loop_left parent_child)
  next
    case 3
    from 3 less.prems(3) obtain lt where
      lt: "entry_lt (h ! (2 * pos + 1)) (h ! (2 * pos + 2)) = Inr lt"
      by (auto simp: siftup_loop_both split: sum.splits)
    then have lt_eq: "lt = (ekey (h ! (2 * pos + 1)) < ekey (h ! (2 * pos + 2)))"
      by (rule entry_lt_Inr)
    show ?thesis
    proof (cases lt)
      case True
      have "ekey (h ! (2 * pos + 1)) \<le> ekey (h ! i)"
        if "0 < i" "i < length h" "parent i = pos" for i
        using that True lt_eq by (auto simp: parent_child)
      with 3 True lt less.prems(3) step[of "2 * pos + 1"] show ?thesis
        by (simp add: siftup_loop_both parent_child)
    next
      case False
      have "ekey (h ! (2 * pos + 2)) \<le> ekey (h ! i)"
        if "0 < i" "i < length h" "parent i = pos" for i
        using that False lt_eq by (auto simp: parent_child)
      with 3 False lt less.prems(3) step[of "2 * pos + 2"] show ?thesis
        by (simp add: siftup_loop_both parent_child)
    qed
  qed
qed

lemma heap_root_least: "is_heap h \<Longrightarrow> i < length h \<Longrightarrow> ekey (h ! 0) \<le> ekey (h ! i)"
proof (induction i rule: less_induct)
  case (less i)
  show ?case
  proof (cases "i = 0")
    case True
    then show ?thesis by simp
  next
    case False
    then have pi: "parent i < i" by (simp add: parent_less)
    with less.prems have "ekey (h ! 0) \<le> ekey (h ! parent i)" by (intro less.IH) simp_all
    moreover from less.prems False have "ekey (h ! parent i) \<le> ekey (h ! i)"
      by (simp add: is_heap_iff)
    ultimately show ?thesis by (rule order_trans)
  qed
qed

lemma heappush_heap:
  assumes "is_heap h" "heappush h x = (None, h')"
  shows "is_heap h'"
proof -
  let ?h = "h @ [x]"
  from assms(2) have run: "siftdown_loop ?h 0 (length h) = (None, h')"
    by (simp add: heappush_def siftdown_def)
  have nochild: "parent c \<noteq> length h" if "0 < c" "c < length ?h" for c
    using that by (auto simp: parent_child)
  have "ekey (?h ! parent i) \<le> ekey (?h ! i)" if i: "0 < i" "i < length ?h" "i \<noteq> length h" for i
  proof -
    from i have il: "i < length h" by simp
    moreover have "parent i < length h" using parent_less[OF i(1)] il by simp
    ultimately show ?thesis using assms(1) i(1) by (simp add: is_heap_iff nth_append)
  qed
  then have "sift_down_inv ?h (length h)"
    unfolding sift_down_inv_def using nochild by auto
  from siftdown_loop_heap[OF this run] show ?thesis .
qed

lemma siftup_heap_0:
  assumes inv: "sift_up_inv h 0" and run: "siftup h 0 = (None, h')"
  shows "is_heap h'"
proof -
  from inv have pl: "0 < length h" by (simp add: sift_up_inv_def)
  obtain r h1 p1 where up: "siftup_loop h (length h) 0 = (r, h1, p1)"
    by (cases "siftup_loop h (length h) 0")
  with run pl have r: "r = None" and down: "siftdown h1 0 p1 = (None, h')"
    by (cases r; simp add: siftup_def)+
  from siftup_loop_heap[OF inv refl up[unfolded r]] have d: "sift_down_inv h1 p1" .
  then have "p1 < length h1" by (simp add: sift_down_inv_def)
  with down have "siftdown_loop h1 0 p1 = (None, h')" by (simp add: siftdown_def)
  from siftdown_loop_heap[OF d this] show ?thesis .
qed

lemma heappop_heap:
  assumes heap: "is_heap h" and run: "heappop h = (Inr x, h')"
  shows "is_heap h'"
proof -
  from run have ne: "h \<noteq> []" by (auto simp: heappop_def)
  show ?thesis
  proof (cases "butlast h = []")
    case True
    with run ne have "h' = []" by (auto simp: heappop_def Let_def)
    then show ?thesis by (simp add: is_heap_def)
  next
    case False
    let ?b = "butlast h"
    let ?h = "?b[0 := last h]"
    obtain r h1 where s: "siftup ?h 0 = (r, h1)" by (cases "siftup ?h 0")
    with False run ne have up: "siftup ?h 0 = (None, h')"
      by (cases r) (simp_all add: heappop_def Let_def)
    have "ekey (?h ! parent i) \<le> ekey (?h ! i)"
      if i: "0 < i" "i < length ?h" "parent i \<noteq> 0" for i
    proof -
      from i have il: "i < length ?b" by simp
      then have "i < length h" by simp
      moreover have pl: "parent i < length ?b" using parent_less[OF i(1)] il by simp
      ultimately have "ekey (h ! parent i) \<le> ekey (h ! i)"
        using heap i(1) by (simp add: is_heap_iff)
      with i il pl show ?thesis by (simp add: nth_butlast)
    qed
    moreover from False have "0 < length ?h" by (metis length_greater_0_conv length_list_update)
    ultimately have "sift_up_inv ?h 0"
      unfolding sift_up_inv_def by auto
    from siftup_heap_0[OF this up] show ?thesis .
  qed
qed

lemma heappop_least:
  assumes heap: "is_heap h" and run: "heappop h = (Inr x, h')" and y: "y \<in> set h'"
  shows "ekey x \<le> ekey y"
proof -
  from run have ne: "h \<noteq> []" by (auto simp: heappop_def)
  from heappop_first[of h x] run have x: "x = h ! 0" by simp
  from heappop_mset[OF ne] run have m: "mset h = add_mset x (mset h')" using x by simp
  from y have "y \<in># mset h'" by simp
  with m have "y \<in># mset h" by simp
  then have "y \<in> set h" by simp
  then obtain i where "i < length h" "y = h ! i" by (auto simp: in_set_conv_nth)
  with heap_root_least[OF heap] x show ?thesis by simp
qed

text \<open>
  No comparison raises among entries of which no two different ones have the same priority
  and job id.
\<close>

lemma comparable_lt:
  "comparable S \<Longrightarrow> a \<in> S \<Longrightarrow> b \<in> S \<Longrightarrow> entry_lt a b = Inr (ekey a < ekey b)"
  by (rule entry_lt_comparable) (simp add: comparable_def)

lemma comparable_subset: "comparable S \<Longrightarrow> T \<subseteq> S \<Longrightarrow> comparable T"
  unfolding comparable_def by blast

lemma swap_set: "i < length xs \<Longrightarrow> k < length xs \<Longrightarrow> set (swap xs i k) = set xs"
  by (metis swap_mset set_mset_mset)

lemma siftdown_loop_total:
  "pos < length h \<Longrightarrow> comparable (set h) \<Longrightarrow> fst (siftdown_loop h s pos) = None"
proof (induction pos arbitrary: h rule: less_induct)
  case (less pos)
  show ?case
  proof (cases "s < pos")
    case False
    then show ?thesis by (simp add: siftdown_loop_stop)
  next
    case True
    then have pp: "parent pos < pos" by (simp add: parent_less)
    with less.prems(1) have ppl: "parent pos < length h" by simp
    have lt: "entry_lt (h ! pos) (h ! parent pos) = Inr (ekey (h ! pos) < ekey (h ! parent pos))"
      using less.prems(1) ppl by (intro comparable_lt[OF less.prems(2)]) simp_all
    have "comparable (set (swap h (parent pos) pos))"
      using less.prems ppl by (simp add: swap_set)
    with less.IH[OF pp, of "swap h (parent pos) pos"] ppl
    have "fst (siftdown_loop (swap h (parent pos) pos) s (parent pos)) = None" by simp
    with True lt show ?thesis by (simp add: siftdown_loop_step)
  qed
qed

lemma siftup_loop_total:
  "e \<le> length h \<Longrightarrow> comparable (set h) \<Longrightarrow> fst (siftup_loop h e pos) = None"
proof (induction "e - pos" arbitrary: h pos rule: less_induct)
  case less
  have step: "fst (siftup_loop (swap h c pos) e c) = None" if c: "pos < c" "c < e" for c
  proof -
    from c less.prems have "comparable (set (swap h c pos))" by (simp add: swap_set)
    with less.hyps[of c "swap h c pos"] c less.prems(1) show ?thesis by simp
  qed
  consider "\<not> 2 * pos + 1 < e" | "2 * pos + 1 < e" "\<not> 2 * pos + 2 < e" | "2 * pos + 2 < e"
    by linarith
  then show ?case
  proof cases
    case 1
    then show ?thesis by (simp add: siftup_loop_stop)
  next
    case 2
    with step[of "2 * pos + 1"] show ?thesis by (simp add: siftup_loop_left)
  next
    case 3
    with less.prems(1) have "h ! (2 * pos + 1) \<in> set h" "h ! (2 * pos + 2) \<in> set h"
      by simp_all
    then have "entry_lt (h ! (2 * pos + 1)) (h ! (2 * pos + 2)) =
        Inr (ekey (h ! (2 * pos + 1)) < ekey (h ! (2 * pos + 2)))"
      by (intro comparable_lt[OF less.prems(2)])
    with 3 step[of "2 * pos + 1"] step[of "2 * pos + 2"] show ?thesis
      by (simp add: siftup_loop_both)
  qed
qed

lemma siftup_total:
  assumes "pos < length h" "comparable (set h)"
  shows "fst (siftup h pos) = None"
proof -
  obtain r h1 p1 where up: "siftup_loop h (length h) pos = (r, h1, p1)"
    by (cases "siftup_loop h (length h) pos")
  from siftup_loop_total[OF order_refl assms(2), of pos] up have r: "r = None" by simp
  from siftup_loop_mset[OF assms(1) order_refl] up
  have m: "mset h1 = mset h" and p1: "p1 < length h" by simp_all
  from m have "set h1 = set h" by (metis set_mset_mset)
  moreover from m have "length h1 = length h" by (metis size_mset)
  ultimately have "fst (siftdown_loop h1 pos p1) = None"
    using p1 assms(2) by (intro siftdown_loop_total) simp_all
  with up r p1 assms(1) \<open>length h1 = length h\<close> show ?thesis
    by (simp add: siftup_def siftdown_def)
qed

lemma heappush_total:
  assumes "comparable (insert x (set h))"
  shows "fst (heappush h x) = None"
proof -
  from assms have "comparable (set (h @ [x]))" by simp
  from siftdown_loop_total[OF _ this, of "length h" 0] show ?thesis
    by (simp add: heappush_def siftdown_def)
qed

lemma heappop_total:
  assumes "h \<noteq> []" "comparable (set h)"
  shows "fst (heappop h) = Inr (h ! 0)"
proof (cases "butlast h = []")
  case True
  with assms(1) have "h = [last h]" by (cases h rule: rev_cases) simp_all
  then have "h ! 0 = last h" by (metis nth_Cons_0)
  with True assms(1) show ?thesis by (simp add: heappop_def)
next
  case False
  then have pl: "0 < length ((butlast h)[0 := last h])"
    by (metis length_greater_0_conv length_list_update)
  have "set ((butlast h)[0 := last h]) \<subseteq> insert (last h) (set (butlast h))"
    by (rule set_update_subset_insert)
  also have "\<dots> \<subseteq> set h"
    using assms(1) by (cases h rule: rev_cases) auto
  finally have "comparable (set ((butlast h)[0 := last h]))"
    by (rule comparable_subset[OF assms(2)])
  from siftup_total[OF pl this] obtain h' where
    s: "siftup ((butlast h)[0 := last h]) 0 = (None, h')"
    by (cases "siftup ((butlast h)[0 := last h]) 0") simp
  from False have "0 < length (butlast h)" by (metis length_greater_0_conv)
  then have "butlast h ! 0 = h ! 0" by (simp only: nth_butlast)
  with s False assms(1) show ?thesis by (simp add: heappop_def Let_def)
qed

subsection \<open>Draining the queue\<close>

lemma try_execute_loop_stop:
  "\<not> (q \<noteq> [] \<and> can_execute_job cfg m) \<Longrightarrow> try_execute_loop cfg q m ex lg = (ex, lg, q, m)"
  by (subst try_execute_loop.simps) auto

lemma try_execute_loop_raise:
  "q \<noteq> [] \<Longrightarrow> can_execute_job cfg m \<Longrightarrow> fst (heappop q) = Inl e \<Longrightarrow>
   try_execute_loop cfg q m ex lg = try_execute_loop cfg (snd (heappop q)) m ex (lg @ [e])"
  by (subst try_execute_loop.simps) simp

lemma try_execute_loop_run:
  "q \<noteq> [] \<Longrightarrow> can_execute_job cfg m \<Longrightarrow> fst (heappop q) = Inr x \<Longrightarrow>
   try_execute_loop cfg q m ex lg =
     try_execute_loop cfg (snd (heappop q)) (update_resource_usage (snd (snd x)) m)
       (ex @ [executed_of x]) lg"
  by (subst try_execute_loop.simps) (simp add: executed_of_def split: prod.splits)

text \<open>
  Whatever happens in the drain, every \<^verbatim>\<open>get\<close> takes exactly one entry out of the queue,
  which is then executed or, when the \<^verbatim>\<open>get\<close> raised, logged; no entry is added, and
  the loop leaves entries behind only when admission is denied.
\<close>

lemma try_execute_loop_account:
  "try_execute_loop cfg q m ex lg = (ex', lg', q', m') \<Longrightarrow>
   length q + length ex + length lg = length q' + length ex' + length lg'
   \<and> length ex \<le> length ex' \<and> length lg \<le> length lg'
   \<and> mset q' \<subseteq># mset q
   \<and> (q' = [] \<or> \<not> can_execute_job cfg m')"
proof (induction "length q" arbitrary: q m ex lg rule: less_induct)
  case less
  show ?case
  proof (cases "q \<noteq> [] \<and> can_execute_job cfg m")
    case False
    with less.prems show ?thesis by (auto simp: try_execute_loop_stop)
  next
    case True
    then have ne: "q \<noteq> []" and can: "can_execute_job cfg m" by simp_all
    let ?q1 = "snd (heappop q)"
    from heappop_length[OF ne] have len: "Suc (length ?q1) = length q" .
    have "mset ?q1 \<subseteq># add_mset (q ! 0) (mset ?q1)" by simp
    then have sub: "mset ?q1 \<subseteq># mset q" by (simp only: heappop_mset[OF ne])
    show ?thesis
    proof (cases "fst (heappop q)")
      case (Inl e)
      with less.prems ne can
      have "try_execute_loop cfg ?q1 m ex (lg @ [e]) = (ex', lg', q', m')"
        by (simp add: try_execute_loop_raise)
      from less.hyps[OF _ this] len
      have "length ?q1 + length ex + length (lg @ [e]) = length q' + length ex' + length lg'"
        and "length ex \<le> length ex'" and "length (lg @ [e]) \<le> length lg'"
        and "mset q' \<subseteq># mset ?q1" and "q' = [] \<or> \<not> can_execute_job cfg m'"
        by simp_all
      moreover from \<open>mset q' \<subseteq># mset ?q1\<close> sub have "mset q' \<subseteq># mset q"
        by (rule subset_mset.order_trans)
      ultimately show ?thesis using len by simp
    next
      case (Inr x)
      with less.prems ne can
      have "try_execute_loop cfg ?q1 (update_resource_usage (snd (snd x)) m)
              (ex @ [executed_of x]) lg = (ex', lg', q', m')"
        by (simp add: try_execute_loop_run)
      from less.hyps[OF _ this] len
      have "length ?q1 + length (ex @ [executed_of x]) + length lg =
              length q' + length ex' + length lg'"
        and "length (ex @ [executed_of x]) \<le> length ex'" and "length lg \<le> length lg'"
        and "mset q' \<subseteq># mset ?q1" and "q' = [] \<or> \<not> can_execute_job cfg m'"
        by simp_all
      moreover from \<open>mset q' \<subseteq># mset ?q1\<close> sub have "mset q' \<subseteq># mset q"
        by (rule subset_mset.order_trans)
      ultimately show ?thesis using len by simp
    qed
  qed
qed

text \<open>
  A drain of a heap that logs nothing executes the entries it takes in ascending order of
  priority and job id, each of them at or below every entry it leaves, and leaves a heap.
\<close>

lemma try_execute_loop_clean:
  "is_heap q \<Longrightarrow> try_execute_loop cfg q m ex lg = (ex', lg, q', m') \<Longrightarrow>
   \<exists>popped. ex' = ex @ map executed_of popped
     \<and> mset q = mset popped + mset q'
     \<and> sorted (map ekey popped)
     \<and> (\<forall>x \<in> set popped. \<forall>y \<in> set q'. ekey x \<le> ekey y)
     \<and> m' = foldl (\<lambda>m x. update_resource_usage (snd (snd x)) m) m popped
     \<and> is_heap q'"
proof (induction "length q" arbitrary: q m ex rule: less_induct)
  case less
  show ?case
  proof (cases "q \<noteq> [] \<and> can_execute_job cfg m")
    case False
    with less.prems have "ex' = ex" "q' = q" "m' = m" by (auto simp: try_execute_loop_stop)
    with less.prems(1) show ?thesis by (intro exI[of _ "[]"]) simp
  next
    case True
    then have ne: "q \<noteq> []" and can: "can_execute_job cfg m" by simp_all
    let ?q1 = "snd (heappop q)"
    from heappop_length[OF ne] have len: "length ?q1 < length q" by simp
    show ?thesis
    proof (cases "fst (heappop q)")
      case (Inl e)
      with less.prems(2) ne can
      have "try_execute_loop cfg ?q1 m ex (lg @ [e]) = (ex', lg, q', m')"
        by (simp add: try_execute_loop_raise)
      from try_execute_loop_account[OF this] have False by simp
      then show ?thesis ..
    next
      case (Inr x)
      then have pop: "heappop q = (Inr x, ?q1)" by (simp add: prod_eq_iff)
      from Inr less.prems(2) ne can
      have run: "try_execute_loop cfg ?q1 (update_resource_usage (snd (snd x)) m)
              (ex @ [executed_of x]) lg = (ex', lg, q', m')"
        by (simp add: try_execute_loop_run)
      from heappop_heap[OF less.prems(1) pop] have h1: "is_heap ?q1" .
      from less.hyps[OF len h1 run] obtain popped where p:
        "ex' = (ex @ [executed_of x]) @ map executed_of popped"
        "mset ?q1 = mset popped + mset q'"
        "sorted (map ekey popped)"
        "\<forall>a \<in> set popped. \<forall>y \<in> set q'. ekey a \<le> ekey y"
        "m' = foldl (\<lambda>m x. update_resource_usage (snd (snd x)) m)
                (update_resource_usage (snd (snd x)) m) popped"
        "is_heap q'"
        by blast
      from heappop_first[of q x] Inr have x: "x = q ! 0" by simp
      from heappop_mset[OF ne] x have mq: "mset q = add_mset x (mset ?q1)" by simp
      have least: "ekey x \<le> ekey y" if "y \<in> set ?q1" for y
        using heappop_least[OF less.prems(1) pop that] .
      from p(2) have sets: "set ?q1 = set popped \<union> set q'"
        by (metis set_mset_mset set_mset_union)
      have "sorted (map ekey (x # popped))"
        using p(3) least sets by auto
      moreover have "\<forall>a \<in> set (x # popped). \<forall>y \<in> set q'. ekey a \<le> ekey y"
        using p(4) least sets by auto
      moreover have "mset q = mset (x # popped) + mset q'"
        using mq p(2) by simp
      ultimately show ?thesis
        using p(1) p(5) p(6) by (intro exI[of _ "x # popped"]) simp
    qed
  qed
qed

lemma try_execute_loop_total:
  "comparable (set q) \<Longrightarrow> fst (snd (try_execute_loop cfg q m ex lg)) = lg"
proof (induction "length q" arbitrary: q m ex rule: less_induct)
  case less
  show ?case
  proof (cases "q \<noteq> [] \<and> can_execute_job cfg m")
    case False
    then show ?thesis by (simp add: try_execute_loop_stop)
  next
    case True
    then have ne: "q \<noteq> []" and can: "can_execute_job cfg m" by simp_all
    let ?q1 = "snd (heappop q)"
    from heappop_length[OF ne] have len: "length ?q1 < length q" by simp
    from heappop_mset[OF ne] have "set ?q1 \<subseteq> set q"
      by (metis set_mset_mset set_mset_add_mset_insert subset_insertI)
    with less.prems have "comparable (set ?q1)" by (rule comparable_subset)
    from less.hyps[OF len this] heappop_total[OF ne less.prems] ne can show ?thesis
      by (simp add: try_execute_loop_run)
  qed
qed

subsection \<open>Calls of \<^verbatim>\<open>schedule_job\<close>\<close>

lemma schedule_job_raise:
  "fst (heappush q (entry_of j now)) = Some e \<Longrightarrow>
   schedule_job cfg j now reading q = (NotScheduled e, [e], snd (heappush q (entry_of j now)))"
  by (cases "heappush q (entry_of j now)") (simp add: schedule_job_def Let_def entry_of_def)

lemma schedule_job_put:
  assumes "fst (heappush q (entry_of j now)) = None"
    and "try_execute_loop cfg (snd (heappush q (entry_of j now))) reading [] [] = (ex, lg, q', m')"
  shows "schedule_job cfg j now reading q =
     (Scheduled
        \<lparr>sr_job_id = fst (snd (entry_of j now)), sr_priority = fst (entry_of j now),
         sr_queue_position = length q',
         sr_execution_result =
           \<lparr>jobs_executed = length ex, executed_jobs = ex, remaining_queue_size = length q'\<rparr>\<rparr>,
      lg, q')"
  using assms
  by (cases "heappush q (entry_of j now)")
     (simp add: schedule_job_def Let_def entry_of_def try_execute_jobs_def)

text \<open>
  The queue after a call holds no entry but those it held and the new one, and the number
  of entries that left it is the number of jobs executed plus the number of exceptions
  logged by the drain.
\<close>

lemma schedule_job_account:
  assumes "schedule_job cfg j now reading q = (out, lg, q')"
  shows "mset q' \<subseteq># add_mset (entry_of j now) (mset q)
    \<and> (case out of
          NotScheduled e \<Rightarrow> lg = [e] \<and> mset q' = add_mset (entry_of j now) (mset q)
        | Scheduled r \<Rightarrow>
            length q' + jobs_executed (sr_execution_result r) + length lg = Suc (length q)
            \<and> jobs_executed (sr_execution_result r) = length (executed_jobs (sr_execution_result r))
            \<and> remaining_queue_size (sr_execution_result r) = length q'
            \<and> sr_queue_position r = length q')"
proof (cases "fst (heappush q (entry_of j now))")
  case (Some e)
  from schedule_job_raise[OF this] assms heappush_mset[of q "entry_of j now"] show ?thesis
    by auto
next
  case None
  let ?q1 = "snd (heappush q (entry_of j now))"
  obtain ex lg1 q1 m1 where run: "try_execute_loop cfg ?q1 reading [] [] = (ex, lg1, q1, m1)"
    by (cases "try_execute_loop cfg ?q1 reading [] []") auto
  from heappush_mset[of q "entry_of j now"] have m: "mset ?q1 = add_mset (entry_of j now) (mset q)" .
  then have "length ?q1 = Suc (length q)" by (metis size_mset size_add_mset)
  with try_execute_loop_account[OF run] m schedule_job_put[OF None run] assms show ?thesis
    by auto
qed

lemma schedule_job_clean:
  assumes heap: "is_heap q" and run: "schedule_job cfg j now reading q = (out, [], q')"
  shows "\<exists>r popped. out = Scheduled r
    \<and> executed_jobs (sr_execution_result r) = map executed_of popped
    \<and> add_mset (entry_of j now) (mset q) = mset popped + mset q'
    \<and> sorted (map ekey popped)
    \<and> (\<forall>x \<in> set popped. \<forall>y \<in> set q'. ekey x \<le> ekey y)
    \<and> is_heap q'"
proof (cases "fst (heappush q (entry_of j now))")
  case (Some e)
  from schedule_job_raise[OF this] run show ?thesis by simp
next
  case None
  let ?q1 = "snd (heappush q (entry_of j now))"
  from None have push: "heappush q (entry_of j now) = (None, ?q1)" by (simp add: prod_eq_iff)
  obtain ex lg1 q1 m1 where loop: "try_execute_loop cfg ?q1 reading [] [] = (ex, lg1, q1, m1)"
    by (cases "try_execute_loop cfg ?q1 reading [] []") auto
  from schedule_job_put[OF None loop] run have out: "out =
     Scheduled
        \<lparr>sr_job_id = fst (snd (entry_of j now)), sr_priority = fst (entry_of j now),
         sr_queue_position = length q',
         sr_execution_result =
           \<lparr>jobs_executed = length ex, executed_jobs = ex, remaining_queue_size = length q'\<rparr>\<rparr>"
    and lg1: "lg1 = []" and q1: "q1 = q'" by simp_all
  from heappush_heap[OF heap push] have h1: "is_heap ?q1" .
  from try_execute_loop_clean[OF h1 loop[unfolded lg1 q1]] obtain popped where
    "ex = map executed_of popped" "mset ?q1 = mset popped + mset q'"
    "sorted (map ekey popped)" "\<forall>x \<in> set popped. \<forall>y \<in> set q'. ekey x \<le> ekey y" "is_heap q'"
    by auto
  with out heappush_mset[of q "entry_of j now"] show ?thesis by auto
qed

lemma schedule_job_total:
  assumes "comparable (insert (entry_of j now) (set q))"
  shows "fst (snd (schedule_job cfg j now reading q)) = []"
proof -
  let ?q1 = "snd (heappush q (entry_of j now))"
  from heappush_total[OF assms] have none: "fst (heappush q (entry_of j now)) = None" .
  from heappush_mset[of q "entry_of j now"] have "set ?q1 = insert (entry_of j now) (set q)"
    by (metis set_mset_mset set_mset_add_mset_insert)
  with assms have "comparable (set ?q1)" by simp
  from try_execute_loop_total[OF this, of cfg reading "[]" "[]"]
  obtain ex q' m' where "try_execute_loop cfg ?q1 reading [] [] = (ex, [], q', m')"
    by (cases "try_execute_loop cfg ?q1 reading [] []") auto
  from schedule_job_put[OF none this] show ?thesis by simp
qed

lemma schedule_all_Cons:
  "schedule_all cfg ((j, now, reading) # calls) q =
     (fst (snd (schedule_job cfg j now reading q))
        @ fst (schedule_all cfg calls (snd (snd (schedule_job cfg j now reading q)))),
      snd (schedule_all cfg calls (snd (snd (schedule_job cfg j now reading q)))))"
  by (simp split: prod.splits)

declare schedule_all.simps(2) [simp del]

lemma schedule_all_snoc:
  "schedule_all cfg (calls @ [(j, now, reading)]) q =
     (fst (schedule_all cfg calls q)
        @ fst (snd (schedule_job cfg j now reading (snd (schedule_all cfg calls q)))),
      snd (snd (schedule_job cfg j now reading (snd (schedule_all cfg calls q)))))"
proof (induction calls arbitrary: q)
  case Nil
  show ?case by (simp add: schedule_all_Cons)
next
  case (Cons c calls)
  obtain j' now' reading' where c: "c = (j', now', reading')" by (cases c)
  show ?case
    unfolding c append_Cons schedule_all_Cons Cons.IH by simp
qed

lemma schedule_all_heap:
  "is_heap q \<Longrightarrow> fst (schedule_all cfg calls q) = [] \<Longrightarrow> is_heap (snd (schedule_all cfg calls q))"
proof (induction calls arbitrary: q)
  case Nil
  then show ?case by simp
next
  case (Cons c calls)
  obtain j now reading where c: "c = (j, now, reading)" by (cases c)
  obtain out lg q1 where s: "schedule_job cfg j now reading q = (out, lg, q1)"
    by (cases "schedule_job cfg j now reading q")
  from Cons.prems(2) s have lg: "lg = []" and rest: "fst (schedule_all cfg calls q1) = []"
    by (simp_all add: c schedule_all_Cons)
  from schedule_job_clean[OF Cons.prems(1) s[unfolded lg]] have "is_heap q1" by blast
  from Cons.IH[OF this rest] s show ?case by (simp add: c schedule_all_Cons)
qed

lemma schedule_all_entries:
  "set (snd (schedule_all cfg calls q)) \<subseteq> set q \<union> (\<lambda>(j, now, reading). entry_of j now) ` set calls"
proof (induction calls arbitrary: q)
  case Nil
  show ?case by simp
next
  case (Cons c calls)
  obtain j now reading where c: "c = (j, now, reading)" by (cases c)
  obtain out lg q1 where s: "schedule_job cfg j now reading q = (out, lg, q1)"
    by (cases "schedule_job cfg j now reading q")
  from schedule_job_account[OF s] have "mset q1 \<subseteq># add_mset (entry_of j now) (mset q)" by simp
  then have "set q1 \<subseteq> insert (entry_of j now) (set q)"
    by (metis set_mset_mono set_mset_mset set_mset_add_mset_insert)
  moreover have "(\<lambda>(j, now, reading). entry_of j now) ` set (c # calls) =
      insert (entry_of j now) ((\<lambda>(j, now, reading). entry_of j now) ` set calls)"
    by (simp add: c)
  moreover have "snd (schedule_all cfg (c # calls) q) = snd (schedule_all cfg calls q1)"
    using s by (simp add: c schedule_all_Cons)
  ultimately show ?case using Cons.IH[of q1] by (simp only:) blast
qed

lemma schedule_all_total:
  "comparable (set q \<union> (\<lambda>(j, now, reading). entry_of j now) ` set calls) \<Longrightarrow>
   fst (schedule_all cfg calls q) = []"
proof (induction calls arbitrary: q)
  case Nil
  show ?case by simp
next
  case (Cons c calls)
  obtain j now reading where c: "c = (j, now, reading)" by (cases c)
  let ?E = "(\<lambda>(j, now, reading). entry_of j now) ` set calls"
  obtain out lg q1 where s: "schedule_job cfg j now reading q = (out, lg, q1)"
    by (cases "schedule_job cfg j now reading q")
  have E: "(\<lambda>(j, now, reading). entry_of j now) ` set (c # calls) = insert (entry_of j now) ?E"
    by (simp add: c)
  have "insert (entry_of j now) (set q) \<subseteq> set q \<union> (\<lambda>(j, now, reading). entry_of j now) ` set (c # calls)"
    unfolding E by blast
  with Cons.prems have cmp: "comparable (insert (entry_of j now) (set q))"
    by (rule comparable_subset)
  from schedule_job_total[OF this, of cfg reading] s have lg: "lg = []" by simp
  from schedule_job_account[OF s] have "mset q1 \<subseteq># add_mset (entry_of j now) (mset q)" by simp
  then have "set q1 \<subseteq> insert (entry_of j now) (set q)"
    by (metis set_mset_mono set_mset_mset set_mset_add_mset_insert)
  then have "set q1 \<union> ?E \<subseteq> set q \<union> (\<lambda>(j, now, reading). entry_of j now) ` set (c # calls)"
    unfolding E by blast
  with Cons.prems have "comparable (set q1 \<union> ?E)" by (rule comparable_subset)
  from Cons.IH[OF this] s lg show ?case by (simp add: c schedule_all_Cons)
qed

subsection \<open>The order of execution\<close>


lemma ekey_le_same_priority:
  "ekey x \<le> ekey y \<Longrightarrow> fst y = fst x \<Longrightarrow> fst (snd x) \<le> fst (snd y)"
  by (auto simp: ekey_def less_eq_prod_def)

lemma sorted_popped_order:
  assumes sorted: "sorted (map ekey popped)"
    and least: "\<forall>x \<in> set popped. \<forall>y \<in> set q'. ekey x \<le> ekey y"
    and a: "a \<in> set popped \<union> set q'" and b: "b \<in> set popped"
    and ab: "fst a = fst b" "fst (snd a) < fst (snd b)"
  shows "\<exists>i k. i < k \<and> k < length popped \<and> popped ! i = a \<and> popped ! k = b"
proof -
  have nle: "\<not> ekey b \<le> ekey a"
  proof
    assume "ekey b \<le> ekey a"
    with ab(1) have "fst (snd b) \<le> fst (snd a)" by (auto dest: ekey_le_same_priority)
    with ab(2) show False by (meson leD)
  qed
  from b obtain k where k: "k < length popped" "popped ! k = b" by (auto simp: in_set_conv_nth)
  from a least b nle have "a \<in> set popped" by blast
  then obtain i where i: "i < length popped" "popped ! i = a" by (auto simp: in_set_conv_nth)
  have "i < k"
  proof (rule ccontr)
    assume "\<not> i < k"
    then have "k \<le> i" by simp
    with sorted i(1) have "map ekey popped ! k \<le> map ekey popped ! i"
      by (intro sorted_nth_mono) simp_all
    with i k have "ekey b \<le> ekey a" by simp
    with nle show False ..
  qed
  with i k show ?thesis by blast
qed


lemma priority_inference_job: "calculate_job_priority (inference_job n) = 110"
  by (simp add: calculate_job_priority_spec inference_job_def dict_get_def spec_priority_def
      spec_type_offset_def spec_urgency_modifier_def)

lemma inference_job_id: "dict_get (job_id (inference_job n)) d = n"
  by (simp add: inference_job_def dict_get_def)

lemma entry_of_inference_job: "entry_of (inference_job n) now = (110, n, inference_job n)"
  by (simp add: entry_of_def priority_inference_job inference_job_id)

lemma a_less_b:
  "entry_lt (110, ''a'', inference_job ''a'') (110, ''b'', inference_job ''b'') = Inr True"
  by (simp add: entry_lt_def less_char_def)

lemma heappush_first: "heappush [] e = (None, [e])"
  by (simp add: heappush_def siftdown_def siftdown_loop_stop)

lemma heappush_a_after_b:
  "heappush [(110, ''b'', inference_job ''b'')] (110, ''a'', inference_job ''a'') =
     (None, [(110, ''a'', inference_job ''a''), (110, ''b'', inference_job ''b'')])"
  by (simp add: heappush_def siftdown_def siftdown_loop_step siftdown_loop_stop parent_def
      a_less_b swap_def)

lemma heappop_pair: "heappop [a, b] = (Inr a, [b])"
  by (simp add: heappop_def siftup_def siftup_loop_stop siftdown_def siftdown_loop_stop)

lemma heappop_single: "heappop [a] = (Inr a, [])"
  by (simp add: heappop_def)

lemma busy_denied: "\<not> can_execute_job default_config busy"
  by (simp add: can_execute_job_def default_config_def busy_def default_thresholds_def
      usage_get_def dict_get_def)

lemma idle_admitted:
  "can_execute_job default_config idle"
  "can_execute_job default_config (update_resource_usage (inference_job n) idle)"
  by (simp_all add: can_execute_job_def default_config_def idle_def default_thresholds_def
      usage_get_def dict_get_def update_resource_usage_def inference_job_def)

lemma execute_inference_job:
  "execute_job (inference_job n) =
     \<lparr>jr_status = ''completed'', jr_job_type = ''inference'', jr_output = ''Result for '' @ n\<rparr>"
  by (simp add: execute_job_def inference_job_def dict_get_def)

lemma schedule_b_busy:
  "schedule_job default_config (inference_job ''b'') 0 busy [] =
     (Scheduled
        \<lparr>sr_job_id = ''b'', sr_priority = 110, sr_queue_position = 1,
         sr_execution_result =
           \<lparr>jobs_executed = 0, executed_jobs = [], remaining_queue_size = 1\<rparr>\<rparr>,
      [], [(110, ''b'', inference_job ''b'')])"
proof -
  let ?b = "(110 :: int, ''b'', inference_job ''b'')"
  have "try_execute_loop default_config [?b] busy [] [] = ([], [], [?b], busy)"
    by (simp add: try_execute_loop_stop busy_denied)
  then show ?thesis
    by (simp add: schedule_job_def Let_def priority_inference_job inference_job_id
        heappush_first try_execute_jobs_def)
qed

lemma schedule_a_idle:
  "schedule_job default_config (inference_job ''a'') 0 idle [(110, ''b'', inference_job ''b'')] =
     (Scheduled
        \<lparr>sr_job_id = ''a'', sr_priority = 110, sr_queue_position = 0,
         sr_execution_result =
           \<lparr>jobs_executed = 2,
            executed_jobs =
              [executed_of (110, ''a'', inference_job ''a''),
               executed_of (110, ''b'', inference_job ''b'')],
            remaining_queue_size = 0\<rparr>\<rparr>,
      [], [])"
proof -
  let ?a = "(110 :: int, ''a'', inference_job ''a'')"
  let ?b = "(110 :: int, ''b'', inference_job ''b'')"
  have "try_execute_loop default_config [?a, ?b] idle [] [] =
      ([executed_of ?a, executed_of ?b], [], [],
       update_resource_usage (inference_job ''b'')
         (update_resource_usage (inference_job ''a'') idle))"
    by (simp add: try_execute_loop_run[where x = ?a] try_execute_loop_run[where x = ?b]
        try_execute_loop_stop idle_admitted heappop_pair heappop_single)
  then show ?thesis
    by (simp add: schedule_job_def Let_def priority_inference_job inference_job_id
        heappush_a_after_b try_execute_jobs_def)
qed

text \<open>
  Claim C2, as stated, fails: with the default thresholds, a job with id b is enqueued
  while the CPU is at its threshold and stays queued; then a job with id a and the same
  priority 110 is enqueued while the machine is idle, and the drain executes a first and b
  second. The entry enqueued later is dequeued first.
\<close>

theorem C2_fifo_counterexample:
  "schedule_job default_config (inference_job ''b'') 0 busy [] =
     (Scheduled
        \<lparr>sr_job_id = ''b'', sr_priority = 110, sr_queue_position = 1,
         sr_execution_result =
           \<lparr>jobs_executed = 0, executed_jobs = [], remaining_queue_size = 1\<rparr>\<rparr>,
      [], [(110, ''b'', inference_job ''b'')])
   \<and> schedule_job default_config (inference_job ''a'') 0 idle [(110, ''b'', inference_job ''b'')] =
     (Scheduled
        \<lparr>sr_job_id = ''a'', sr_priority = 110, sr_queue_position = 0,
         sr_execution_result =
           \<lparr>jobs_executed = 2,
            executed_jobs =
              [\<lparr>ej_job_id = ''a'',
                ej_result = \<lparr>jr_status = ''completed'', jr_job_type = ''inference'',
                             jr_output = ''Result for a''\<rparr>\<rparr>,
               \<lparr>ej_job_id = ''b'',
                ej_result = \<lparr>jr_status = ''completed'', jr_job_type = ''inference'',
                             jr_output = ''Result for b''\<rparr>\<rparr>],
            remaining_queue_size = 0\<rparr>\<rparr>,
      [], [])"
  using schedule_b_busy schedule_a_idle
  by (simp add: executed_of_def execute_inference_job)

text \<open>
  Claim C2, amended. Take any sequence of calls of \<^verbatim>\<open>schedule_job\<close> from the empty queue
  during which no exception was logged; that is so whenever no two different entries of
  the sequence have the same priority and job id. In the next call, if the new entry can
  be compared with the queued ones, nothing is logged either; and if nothing is logged,
  the drain executes the entries it takes in ascending order of priority and job id and
  leaves only entries at or above them. So of two entries in the queue with equal
  priority and different job ids, the one with the smaller id (in Python's string order)
  is dequeued before the other, whatever the order in which they were enqueued.
\<close>

theorem C2_equal_priority_by_job_id:
  "(comparable ((\<lambda>(j, now, reading). entry_of j now) ` set calls) \<longrightarrow>
      fst (schedule_all cfg calls []) = [])
   \<and> (fst (schedule_all cfg calls []) = [] \<longrightarrow>
        (comparable (insert (entry_of j now) (set (snd (schedule_all cfg calls [])))) \<longrightarrow>
           fst (snd (schedule_job cfg j now reading (snd (schedule_all cfg calls [])))) = [])
        \<and> (schedule_job cfg j now reading (snd (schedule_all cfg calls [])) = (out, [], q') \<longrightarrow>
             (\<exists>r popped. out = Scheduled r
                \<and> executed_jobs (sr_execution_result r) = map executed_of popped
                \<and> add_mset (entry_of j now) (mset (snd (schedule_all cfg calls []))) =
                    mset popped + mset q'
                \<and> sorted (map ekey popped)
                \<and> (\<forall>x \<in> set popped. \<forall>y \<in> set q'. ekey x \<le> ekey y)
                \<and> (\<forall>a b. a \<in># add_mset (entry_of j now) (mset (snd (schedule_all cfg calls [])))
                          \<and> b \<in> set popped \<and> fst a = fst b \<and> fst (snd a) < fst (snd b) \<longrightarrow>
                        (\<exists>i k. i < k \<and> k < length popped \<and> popped ! i = a \<and> popped ! k = b)))))"
proof (intro conjI impI)
  assume "comparable ((\<lambda>(j, now, reading). entry_of j now) ` set calls)"
  then show "fst (schedule_all cfg calls []) = []"
    using schedule_all_total[of "[]" calls cfg] by simp
next
  assume "fst (schedule_all cfg calls []) = []"
    and "comparable (insert (entry_of j now) (set (snd (schedule_all cfg calls []))))"
  then show "fst (snd (schedule_job cfg j now reading (snd (schedule_all cfg calls [])))) = []"
    by (simp add: schedule_job_total)
next
  let ?q = "snd (schedule_all cfg calls [])"
  assume clean: "fst (schedule_all cfg calls []) = []"
    and run: "schedule_job cfg j now reading ?q = (out, [], q')"
  have "is_heap []" by (simp add: is_heap_def)
  from schedule_all_heap[OF this clean] have heap: "is_heap ?q" .
  from schedule_job_clean[OF heap run] obtain r popped where p:
    "out = Scheduled r"
    "executed_jobs (sr_execution_result r) = map executed_of popped"
    "add_mset (entry_of j now) (mset ?q) = mset popped + mset q'"
    "sorted (map ekey popped)"
    "\<forall>x \<in> set popped. \<forall>y \<in> set q'. ekey x \<le> ekey y"
    by blast
  have order: "\<exists>i k. i < k \<and> k < length popped \<and> popped ! i = a \<and> popped ! k = b"
    if ab: "a \<in># add_mset (entry_of j now) (mset ?q) \<and> b \<in> set popped
            \<and> fst a = fst b \<and> fst (snd a) < fst (snd b)" for a b
  proof -
    from ab p(3) have "a \<in># mset popped + mset q'" by simp
    then have "a \<in> set popped \<union> set q'" by simp
    with sorted_popped_order[OF p(4) p(5), of a b] ab show ?thesis by blast
  qed
  from p order
  show "\<exists>r popped. out = Scheduled r
      \<and> executed_jobs (sr_execution_result r) = map executed_of popped
      \<and> add_mset (entry_of j now) (mset ?q) = mset popped + mset q'
      \<and> sorted (map ekey popped)
      \<and> (\<forall>x \<in> set popped. \<forall>y \<in> set q'. ekey x \<le> ekey y)
      \<and> (\<forall>a b. a \<in># add_mset (entry_of j now) (mset ?q)
                \<and> b \<in> set popped \<and> fst a = fst b \<and> fst (snd a) < fst (snd b) \<longrightarrow>
              (\<exists>i k. i < k \<and> k < length popped \<and> popped ! i = a \<and> popped ! k = b))"
    by blast
qed

theorem C2_equal_priority_by_job_id_witness:
  "fst (schedule_all default_config [(inference_job ''b'', 0, busy)] []) = []
   \<and> snd (schedule_all default_config [(inference_job ''b'', 0, busy)] []) =
       [(110, ''b'', inference_job ''b'')]
   \<and> fst (snd (schedule_job default_config (inference_job ''a'') 0 idle
        [(110, ''b'', inference_job ''b'')])) = []
   \<and> fst (110 :: int, ''a'', inference_job ''a'') = fst (110 :: int, ''b'', inference_job ''b'')
   \<and> fst (snd (110 :: int, ''a'', inference_job ''a''))
       < fst (snd (110 :: int, ''b'', inference_job ''b''))
   \<and> (\<exists>popped i k.
        [executed_of (110, ''a'', inference_job ''a''),
         executed_of (110, ''b'', inference_job ''b'')] = map executed_of popped
        \<and> i < k \<and> k < length popped
        \<and> popped ! i = (110, ''a'', inference_job ''a'')
        \<and> popped ! k = (110, ''b'', inference_job ''b''))"
proof -
  let ?a = "(110 :: int, ''a'', inference_job ''a'')"
  let ?b = "(110 :: int, ''b'', inference_job ''b'')"
  let ?calls = "[(inference_job ''b'', 0 :: int, busy)]"
  let ?r = "\<lparr>sr_job_id = ''a'', sr_priority = 110, sr_queue_position = 0,
         sr_execution_result =
           \<lparr>jobs_executed = 2, executed_jobs = [executed_of ?a, executed_of ?b],
            remaining_queue_size = 0\<rparr>\<rparr>"
  note c2 = C2_equal_priority_by_job_id [where cfg = default_config and calls = ?calls
      and j = "inference_job ''a''" and now = 0 and reading = idle and out = "Scheduled ?r"
      and q' = "[]"]
  have queue: "snd (schedule_all default_config ?calls []) = [?b]"
    by (simp add: schedule_all_Cons schedule_b_busy)
  have "comparable ((\<lambda>(j, now, reading). entry_of j now) ` set ?calls)"
    by (simp add: comparable_def)
  with c2 have clean: "fst (schedule_all default_config ?calls []) = []" by blast
  have "comparable (insert (entry_of (inference_job ''a'') 0) (set [?b]))"
    by (simp add: comparable_def ekey_def entry_of_inference_job)
  with c2 clean queue
  have quiet: "fst (snd (schedule_job default_config (inference_job ''a'') 0 idle [?b])) = []"
    by simp
  have ids: "fst ?a = fst ?b" "fst (snd ?a) < fst (snd ?b)"
    by (simp_all add: less_char_def)
  let ?q = "snd (schedule_all default_config ?calls [])"
  have run: "schedule_job default_config (inference_job ''a'') 0 idle ?q =
      (Scheduled ?r, [], [])"
    unfolding queue by (rule schedule_a_idle)
  from c2 clean run obtain r popped where r:
    "Scheduled ?r = Scheduled r"
    "executed_jobs (sr_execution_result r) = map executed_of popped"
    "add_mset (entry_of (inference_job ''a'') 0) (mset ?q) = mset popped + mset []"
    "\<forall>a b. a \<in># add_mset (entry_of (inference_job ''a'') 0) (mset ?q) \<and> b \<in> set popped
            \<and> fst a = fst b \<and> fst (snd a) < fst (snd b) \<longrightarrow>
          (\<exists>i k. i < k \<and> k < length popped \<and> popped ! i = a \<and> popped ! k = b)"
    by blast
  from r(1) have "r = ?r" by simp
  with r(2) have p1: "[executed_of ?a, executed_of ?b] = map executed_of popped" by simp
  from r(3) have p2: "add_mset ?a (mset [?b]) = mset popped"
    unfolding queue entry_of_inference_job by simp
  from r(4) have p3: "\<forall>a b. a \<in># add_mset ?a (mset [?b]) \<and> b \<in> set popped
            \<and> fst a = fst b \<and> fst (snd a) < fst (snd b) \<longrightarrow>
          (\<exists>i k. i < k \<and> k < length popped \<and> popped ! i = a \<and> popped ! k = b)"
    unfolding queue entry_of_inference_job .
  note p = p1 p2 p3
  have "?b \<in># add_mset ?a (mset [?b])" by simp
  with p(2) have b: "?b \<in> set popped" by (simp only: set_mset_mset)
  have a: "?a \<in># add_mset ?a (mset [?b])" by simp
  from p(3) a b ids
  have "\<exists>i k. i < k \<and> k < length popped \<and> popped ! i = ?a \<and> popped ! k = ?b"
    by blast
  then obtain i k where ik: "i < k" "k < length popped" "popped ! i = ?a" "popped ! k = ?b"
    by (elim exE conjE)
  have "\<exists>popped i k.
        [executed_of ?a, executed_of ?b] = map executed_of popped
        \<and> i < k \<and> k < length popped \<and> popped ! i = ?a \<and> popped ! k = ?b"
    by (intro exI conjI) (rule p(1) ik)+
  moreover note clean queue quiet ids
  ultimately show ?thesis by (intro conjI)
qed

subsection \<open>A drain that swallows an exception\<close>

lemma entry_lt_ids: "i1 \<noteq> i2 \<Longrightarrow> entry_lt (p, i1, j1) (p, i2, j2) = Inr (i1 < i2)"
  by (simp add: entry_lt_def)

lemma entry_lt_raises: "j1 \<noteq> j2 \<Longrightarrow> entry_lt (p, i, j1) (p, i, j2) = Inl TypeError"
  by (simp add: entry_lt_def)

lemma tagged_job_differs: "inference_job n \<noteq> tagged_job n"
proof
  assume "inference_job n = tagged_job n"
  then have "job_other (inference_job n) ''x'' = job_other (tagged_job n) ''x''" by simp
  then show False by (simp add: inference_job_def tagged_job_def)
qed

lemma entry_of_tagged_job: "entry_of (tagged_job n) now = (110, n, tagged_job n)"
  by (simp add: entry_of_def tagged_job_def calculate_job_priority_spec inference_job_def
      dict_get_def spec_priority_def spec_type_offset_def spec_urgency_modifier_def)

lemma heappush_keep:
  assumes "h \<noteq> []" and "entry_lt x (h ! parent (length h)) = Inr False"
  shows "heappush h x = (None, h @ [x])"
proof -
  from assms(1) have "parent (length h) < length h" by (simp add: parent_less)
  then have "(h @ [x]) ! parent (length h) = h ! parent (length h)" by (simp add: nth_append)
  with assms show ?thesis
    by (simp add: heappush_def siftdown_def siftdown_loop_step)
qed

lemma schedule_job_waits:
  assumes "\<not> can_execute_job cfg m" and "fst (heappush q (entry_of j now)) = None"
  shows "snd (schedule_job cfg j now m q) = ([], snd (heappush q (entry_of j now)))"
proof -
  from assms(1)
  have "try_execute_loop cfg (snd (heappush q (entry_of j now))) m [] [] =
      ([], [], snd (heappush q (entry_of j now)), m)"
    by (simp add: try_execute_loop_stop)
  from schedule_job_put[OF assms(2) this] show ?thesis by simp
qed

lemma heappop_raises:
  "heappop
     [(110, ''a'', inference_job ''a''), (110, ''b'', inference_job ''b''),
      (110, ''d'', inference_job ''d''), (110, ''c'', inference_job ''c''),
      (110, ''c'', tagged_job ''c''), (110, ''e'', inference_job ''e''),
      (110, ''f'', inference_job ''f'')] =
     (Inl TypeError,
      [(110, ''b'', inference_job ''b''), (110, ''f'', inference_job ''f''),
       (110, ''d'', inference_job ''d''), (110, ''c'', inference_job ''c''),
       (110, ''c'', tagged_job ''c''), (110, ''e'', inference_job ''e'')])"
  by (simp add: heappop_def siftup_def siftup_loop_both entry_lt_ids entry_lt_raises
      tagged_job_differs less_char_def swap_def)

lemma heappop_after_raise:
  "heappop
     [(110, ''b'', inference_job ''b''), (110, ''f'', inference_job ''f''),
      (110, ''d'', inference_job ''d''), (110, ''c'', inference_job ''c''),
      (110, ''c'', tagged_job ''c''), (110, ''e'', inference_job ''e'')] =
     (Inr (110, ''b'', inference_job ''b''),
      [(110, ''d'', inference_job ''d''), (110, ''f'', inference_job ''f''),
       (110, ''e'', inference_job ''e''), (110, ''c'', inference_job ''c''),
       (110, ''c'', tagged_job ''c'')])"
  "heappop
     [(110, ''d'', inference_job ''d''), (110, ''f'', inference_job ''f''),
      (110, ''e'', inference_job ''e''), (110, ''c'', inference_job ''c''),
      (110, ''c'', tagged_job ''c'')] =
     (Inr (110, ''d'', inference_job ''d''),
      [(110, ''c'', tagged_job ''c''), (110, ''f'', inference_job ''f''),
       (110, ''e'', inference_job ''e''), (110, ''c'', inference_job ''c'')])"
  "heappop
     [(110, ''c'', tagged_job ''c''), (110, ''f'', inference_job ''f''),
      (110, ''e'', inference_job ''e''), (110, ''c'', inference_job ''c'')] =
     (Inr (110, ''c'', tagged_job ''c''),
      [(110, ''c'', inference_job ''c''), (110, ''f'', inference_job ''f''),
       (110, ''e'', inference_job ''e'')])"
  "heappop
     [(110, ''c'', inference_job ''c''), (110, ''f'', inference_job ''f''),
      (110, ''e'', inference_job ''e'')] =
     (Inr (110, ''c'', inference_job ''c''),
      [(110, ''e'', inference_job ''e''), (110, ''f'', inference_job ''f'')])"
  by (simp_all add: heappop_def siftup_def siftup_loop_both siftup_loop_left siftup_loop_stop
      siftdown_def siftdown_loop_step siftdown_loop_stop parent_def entry_lt_ids
      less_char_def swap_def)

lemma idle_after_jobs:
  "can_execute_job default_config (update_resource_usage j idle) \<and>
   can_execute_job default_config (update_resource_usage j' (update_resource_usage j idle)) \<and>
   can_execute_job default_config
     (update_resource_usage j'' (update_resource_usage j' (update_resource_usage j idle))) \<and>
   \<not> can_execute_job default_config
     (update_resource_usage j'''
        (update_resource_usage j'' (update_resource_usage j' (update_resource_usage j idle))))"
  if "resource_weight j = None" "resource_weight j' = None" "resource_weight j'' = None"
    "resource_weight j''' = None"
  using that
  by (simp add: can_execute_job_def default_config_def idle_def default_thresholds_def
      usage_get_def dict_get_def update_resource_usage_def)

lemma resource_weight_demo:
  "resource_weight (inference_job n) = None" "resource_weight (tagged_job n) = None"
  by (simp_all add: inference_job_def tagged_job_def)

lemma drain_swallows:
  "try_execute_loop default_config
     [(110, ''a'', inference_job ''a''), (110, ''b'', inference_job ''b''),
      (110, ''d'', inference_job ''d''), (110, ''c'', inference_job ''c''),
      (110, ''c'', tagged_job ''c''), (110, ''e'', inference_job ''e''),
      (110, ''f'', inference_job ''f'')] idle [] [] =
     ([executed_of (110, ''b'', inference_job ''b''),
       executed_of (110, ''d'', inference_job ''d''),
       executed_of (110, ''c'', tagged_job ''c''),
       executed_of (110, ''c'', inference_job ''c'')],
      [TypeError],
      [(110, ''e'', inference_job ''e''), (110, ''f'', inference_job ''f'')],
      update_resource_usage (inference_job ''c'')
        (update_resource_usage (tagged_job ''c'')
           (update_resource_usage (inference_job ''d'')
              (update_resource_usage (inference_job ''b'') idle))))"
proof -
  note w = resource_weight_demo
  note adm = idle_after_jobs[OF w(1)[of "''b''"] w(1)[of "''d''"] w(2)[of "''c''"]
      w(1)[of "''c''"]]
  show ?thesis
    by (simp add: try_execute_loop_raise[where e = TypeError]
        try_execute_loop_run[where x = "(110, ''b'', inference_job ''b'')"]
        try_execute_loop_run[where x = "(110, ''d'', inference_job ''d'')"]
        try_execute_loop_run[where x = "(110, ''c'', tagged_job ''c'')"]
        try_execute_loop_run[where x = "(110, ''c'', inference_job ''c'')"]
        try_execute_loop_stop heappop_raises heappop_after_raise idle_admitted(1) adm)
qed

text \<open>
  Seven jobs of priority 110 are scheduled, the first six while the CPU is at its
  threshold, so that they wait; the fifth has the id of the fourth and another
  dictionary. No comparison in a \<^verbatim>\<open>put\<close> meets the two. The seventh call finds the machine
  idle and drains: the first \<^verbatim>\<open>get\<close> compares the two and raises, the job with id a is
  gone from the queue and never executed, the exception is logged and the call reports
  the job as scheduled. The drain goes on with the list as \<^verbatim>\<open>heappop\<close> left it, which is
  no heap, and executes d before the two jobs with id c; it stops when the GPU reaches
  its threshold, with two jobs waiting.
\<close>

lemma schedule_all_waiting:
  "schedule_all default_config
     [(inference_job ''a'', 0, busy), (inference_job ''b'', 0, busy),
      (inference_job ''d'', 0, busy), (inference_job ''c'', 0, busy),
      (tagged_job ''c'', 0, busy), (inference_job ''e'', 0, busy)] [] =
     ([],
      [(110, ''a'', inference_job ''a''), (110, ''b'', inference_job ''b''),
       (110, ''d'', inference_job ''d''), (110, ''c'', inference_job ''c''),
       (110, ''c'', tagged_job ''c''), (110, ''e'', inference_job ''e'')])"
  by (simp add: schedule_all_Cons schedule_job_waits busy_denied entry_of_inference_job
      entry_of_tagged_job heappush_first heappush_keep parent_def entry_lt_ids less_char_def)

lemma schedule_job_swallows:
  "schedule_job default_config (inference_job ''f'') 0 idle
     [(110, ''a'', inference_job ''a''), (110, ''b'', inference_job ''b''),
      (110, ''d'', inference_job ''d''), (110, ''c'', inference_job ''c''),
      (110, ''c'', tagged_job ''c''), (110, ''e'', inference_job ''e'')] =
     (Scheduled
        \<lparr>sr_job_id = ''f'', sr_priority = 110, sr_queue_position = 2,
         sr_execution_result =
           \<lparr>jobs_executed = 4,
            executed_jobs =
              [executed_of (110, ''b'', inference_job ''b''),
               executed_of (110, ''d'', inference_job ''d''),
               executed_of (110, ''c'', tagged_job ''c''),
               executed_of (110, ''c'', inference_job ''c'')],
            remaining_queue_size = 2\<rparr>\<rparr>,
      [TypeError],
      [(110, ''e'', inference_job ''e''), (110, ''f'', inference_job ''f'')])"
proof -
  let ?q = "[(110 :: int, ''a'', inference_job ''a''), (110, ''b'', inference_job ''b''),
      (110, ''d'', inference_job ''d''), (110, ''c'', inference_job ''c''),
      (110, ''c'', tagged_job ''c''), (110, ''e'', inference_job ''e'')]"
  have push: "heappush ?q (entry_of (inference_job ''f'') 0) =
      (None, ?q @ [(110, ''f'', inference_job ''f'')])"
    by (simp add: entry_of_inference_job heappush_keep parent_def entry_lt_ids less_char_def)
  from schedule_job_put[of ?q "inference_job ''f''" 0 default_config idle, unfolded push]
    drain_swallows
  show ?thesis by (simp add: entry_of_inference_job)
qed

subsection \<open>Admission\<close>












subsection \<open>Monitoring and the bounded history\<close>

text \<open>
  Claim C9. When sampling fails (a probe raises, or the disk total is zero), the call
  returns a sample whose numeric fields are all zero and the history is the one before
  the call.
\<close>

theorem C9_probe_failure_keeps_history:
  "sample_metrics pr now = Inl e \<Longrightarrow>
   monitor_resources pr now h =
     (\<lparr>cpu_usage = 0, memory_usage = 0, gpu_usage = 0, storage_usage = 0, network_io = 0,
       timestamp = now\<rparr>, h)"
  by (simp add: monitor_resources_def zero_metrics_def)

theorem C9_probe_failure_witness:
  "sample_metrics (Inl (Raised ''psutil.AccessDenied'')) \<lparr>dt_mktime = 0, dt_weekday = 3\<rparr>
     = Inl (Raised ''psutil.AccessDenied'')
   \<and> monitor_resources (Inl (Raised ''psutil.AccessDenied'')) \<lparr>dt_mktime = 0, dt_weekday = 3\<rparr> [] =
     (\<lparr>cpu_usage = 0, memory_usage = 0, gpu_usage = 0, storage_usage = 0, network_io = 0,
       timestamp = \<lparr>dt_mktime = 0, dt_weekday = 3\<rparr>\<rparr>, [])"
proof -
  have h: "sample_metrics (Inl (Raised ''psutil.AccessDenied'')) \<lparr>dt_mktime = 0, dt_weekday = 3\<rparr>
     = Inl (Raised ''psutil.AccessDenied'')"
    by (simp add: sample_metrics_def)
  from C9_probe_failure_keeps_history [OF h, of "[]"] h show ?thesis by simp
qed

lemma store_metrics_length: "length h \<le> 1000 \<Longrightarrow> length (store_metrics m h) \<le> 1000"
  by (simp add: store_metrics_def Let_def)

lemma store_metrics_last_n:
  "length h \<le> 1000 \<Longrightarrow> last_n 1000 (store_metrics m h @ xs) = last_n 1000 (h @ m # xs)"
proof (cases "length h = 1000")
  case True
  then have ne: "h \<noteq> []" by auto
  have st: "store_metrics m h = tl (h @ [m])"
    using True by (simp add: store_metrics_def Let_def)
  have eq: "tl (h @ [m]) @ xs = tl (h @ m # xs)"
    using ne by simp
  have "last_n 1000 (tl (h @ m # xs)) = drop (length xs) (tl (h @ m # xs))"
    using True by (simp add: last_n_def)
  also have "\<dots> = drop (Suc (length xs)) (h @ m # xs)"
    by (simp only: drop_Suc)
  also have "\<dots> = last_n 1000 (h @ m # xs)"
    using True by (simp add: last_n_def)
  finally show ?thesis by (simp only: st eq)
next
  case False
  assume "length h \<le> 1000"
  with False show ?thesis by (simp add: store_metrics_def Let_def)
qed

lemma sampled_Cons:
  "sampled ((pr, now) # calls) =
     (case sample_metrics pr now of Inr m \<Rightarrow> m # sampled calls | Inl e \<Rightarrow> sampled calls)"
  by (simp add: sampled_def List.map_filter_simps split: sum.splits)

lemma fold_monitor_all:
  "length h \<le> 1000 \<Longrightarrow> fold monitor_all calls h = last_n 1000 (h @ sampled calls)"
proof (induction calls arbitrary: h)
  case Nil
  then show ?case by (simp add: sampled_def List.map_filter_simps last_n_def)
next
  case (Cons c calls)
  obtain pr now where c: "c = (pr, now)" by (cases c)
  show ?case
  proof (cases "sample_metrics pr now")
    case (Inl e)
    with Cons c show ?thesis by (simp add: sampled_Cons monitor_resources_def)
  next
    case (Inr m)
    with Cons.prems Cons.IH[of "store_metrics m h"] c show ?thesis
      by (simp add: sampled_Cons monitor_resources_def store_metrics_length store_metrics_last_n)
  qed
qed

lemma sampled_steady:
  "sampled (map (\<lambda>k. (Inr steady_probe, \<lparr>dt_mktime = real k, dt_weekday = 0\<rparr>)) ks) =
     map (\<lambda>k. \<lparr>cpu_usage = 40, memory_usage = 50, gpu_usage = 0, storage_usage = 25,
                network_io = 30, timestamp = \<lparr>dt_mktime = real k, dt_weekday = 0\<rparr>\<rparr>) ks"
  proof (induction ks)
  case Nil
  show ?case by (simp add: sampled_def List.map_filter_simps)
next
  case (Cons k ks)
  then show ?case by (simp add: sampled_Cons sample_metrics_def steady_probe_def)
qed

text \<open>
  Claim C6. After any sequence of calls from the empty history, the history has at most
  1000 entries and consists of the most recent stored samples in their order. After 1001
  stored samples its length is 1000, it is the list of all but the first sample, and the
  first sample is not in it when the samples are pairwise different.
\<close>

theorem C6_history_bounded_fifo:
  "length (monitor_run calls) \<le> 1000
   \<and> monitor_run calls = drop (length (sampled calls) - 1000) (sampled calls)
   \<and> (length (sampled calls) = 1001 \<longrightarrow>
        length (monitor_run calls) = 1000
        \<and> monitor_run calls = tl (sampled calls)
        \<and> (distinct (sampled calls) \<longrightarrow> hd (sampled calls) \<notin> set (monitor_run calls)))"
proof -
  let ?ms = "sampled calls"
  have run: "monitor_run calls = drop (length ?ms - 1000) ?ms"
    using fold_monitor_all[of "[]" calls] by (simp add: monitor_run_def last_n_def)
  have len: "length (monitor_run calls) \<le> 1000"
    unfolding run by simp
  have hd_tl: "hd xs \<notin> set (tl xs)" if "distinct xs" "xs \<noteq> []"
    for xs :: "ResourceMetrics list"
    using that by (cases xs) auto
  have at1001: "length (monitor_run calls) = 1000 \<and> monitor_run calls = tl ?ms
      \<and> (distinct ?ms \<longrightarrow> hd ?ms \<notin> set (monitor_run calls))"
    if l: "length ?ms = 1001"
  proof -
    have "length ?ms - 1000 = Suc 0" using l by simp
    then have tl: "monitor_run calls = tl ?ms" unfolding run by (simp add: drop_Suc)
    have "?ms \<noteq> []" using l by auto
    with tl l hd_tl[of ?ms] show ?thesis by simp
  qed
  from run len at1001 show ?thesis by blast
qed

theorem C6_history_bounded_fifo_witness:
  "length (sampled (steady_calls 1001)) = 1001
   \<and> distinct (sampled (steady_calls 1001))
   \<and> length (monitor_run (steady_calls 1001)) = 1000
   \<and> monitor_run (steady_calls 1001) = tl (sampled (steady_calls 1001))
   \<and> hd (sampled (steady_calls 1001)) \<notin> set (monitor_run (steady_calls 1001))"
proof -
  have len: "length (sampled (steady_calls 1001)) = 1001"
    by (simp add: steady_calls_def sampled_steady)
  have dist: "distinct (sampled (steady_calls 1001))"
    by (simp add: steady_calls_def sampled_steady distinct_map inj_on_def)
  from C6_history_bounded_fifo [of "steady_calls 1001"] len dist show ?thesis by blast
qed

subsection \<open>Prediction gating\<close>

text \<open>
  Claim C7. With fewer than 10 samples in the history the prediction call returns the
  result without a prediction and with the reason of insufficient data; with 10 or more
  it returns a prediction: the horizon, the predicted usage, the recommendations and the
  confidence. So 9 samples give no prediction and 10 give one.
\<close>

theorem C7_prediction_gating:
  "(length h < 10 \<longrightarrow>
      predict_resource_needs h n = InsufficientData ''Insufficient historical data'')
   \<and> (10 \<le> length h \<longrightarrow>
      predict_resource_needs h n =
        Prediction n (neural_predict (extract_prediction_features (last_n 10 h)) n)
          (generate_resource_recommendations
             (neural_predict (extract_prediction_features (last_n 10 h)) n))
          (calculate_prediction_confidence h))"
  by (simp add: predict_resource_needs_def Let_def)

theorem C7_prediction_gating_witness:
  "predict_resource_needs (sampled (steady_calls 9)) 30 =
     InsufficientData ''Insufficient historical data''
   \<and> (\<exists>p r c. predict_resource_needs (sampled (steady_calls 10)) 30 = Prediction 30 p r c)"
proof -
  have l9: "length (sampled (steady_calls 9)) < 10"
    by (simp add: steady_calls_def sampled_steady)
  have l10: "10 \<le> length (sampled (steady_calls 10))"
    by (simp add: steady_calls_def sampled_steady)
  from C7_prediction_gating [of "sampled (steady_calls 9)" 30]
       C7_prediction_gating [of "sampled (steady_calls 10)" 30] l9 l10
  show ?thesis by blast
qed

subsection \<open>The projected usage\<close>

lemma last_n_map: "last_n k (map f xs) = map f (last_n k xs)"
  by (simp add: last_n_def drop_map)

lemma last_n_last_n:
  assumes "k \<le> m"
  shows "last_n k (last_n m xs) = last_n k xs"
proof -
  have "length xs - (length xs - m + k) + (length xs - m) = length xs - k"
    using assms by arith
  then show ?thesis by (simp add: last_n_def)
qed

lemma last_n_length: "k \<le> length xs \<Longrightarrow> length (last_n k xs) = k"
  by (simp add: last_n_def)

lemma last_last_n: "0 < k \<Longrightarrow> xs \<noteq> [] \<Longrightarrow> last (last_n k xs) = last xs"
  by (simp add: last_n_def last_drop)

lemma list_of_length_5:
  assumes "length xs = 5"
  obtains a b c d e where "xs = [a, b, c, d, e]"
  using assms by (auto simp: length_Suc_conv eval_nat_numeral)

lemma upt_6: "[0..<6] = [0, 1, 2, 3, 4, 5]"
  by (simp add: upt_rec)

lemma clamp_percent_range: "0 \<le> clamp_percent x \<and> clamp_percent x \<le> 100"
  by (simp add: clamp_percent_def)

lemma feature_vector_nth:
  "feature_vector m ! 0 = cpu_usage m / 100"
  "feature_vector m ! 1 = memory_usage m / 100"
  "feature_vector m ! 2 = gpu_usage m / 100"
  "feature_vector m ! 3 = storage_usage m / 100"
  by (simp_all add: feature_vector_def)

lemma feature_vector_length: "length (feature_vector m) = 6"
  by (simp add: feature_vector_def)

lemma vec_sub_nth:
  "k < length a \<Longrightarrow> k < length b \<Longrightarrow> vec_sub a b ! k = a ! k - b ! k"
  by (simp add: vec_sub_def)

lemma vec_add_nth:
  "k < length a \<Longrightarrow> k < length b \<Longrightarrow> vec_add a b ! k = a ! k + b ! k"
  by (simp add: vec_add_def)

lemma vec_scale_nth: "k < length a \<Longrightarrow> vec_scale a c ! k = a ! k * c"
  by (simp add: vec_scale_def)

lemma vec_scale_length: "length (vec_scale a c) = length a"
  by (simp add: vec_scale_def)

lemma np_mean_axis0_nth:
  "k < w \<Longrightarrow> np_mean_axis0 w rows ! k = sum_list (map (\<lambda>r. r ! k) rows) / real (length rows)"
  by (simp add: np_mean_axis0_def)

lemma trend_five_rows:
  assumes "k < 6"
  shows "np_mean_axis0 6 (np_diff_axis0 (map feature_vector [a, b, c, d, e])) ! k =
    ((feature_vector b ! k - feature_vector a ! k) + (feature_vector c ! k - feature_vector b ! k)
     + (feature_vector d ! k - feature_vector c ! k) + (feature_vector e ! k - feature_vector d ! k)) / 4"
  using assms
  by (simp add: np_mean_axis0_nth np_diff_axis0_def vec_sub_nth feature_vector_length)

lemma neural_predict_column:
  assumes "5 \<le> length ms" "last_n 5 ms = [a, b, c, d, e]" "k < 6"
  shows "vec_add (last (map feature_vector ms))
           (vec_scale (np_mean_axis0 6 (np_diff_axis0 (last_n 5 (map feature_vector ms)))) s) ! k =
         feature_vector e ! k +
         ((feature_vector b ! k - feature_vector a ! k) + (feature_vector c ! k - feature_vector b ! k)
          + (feature_vector d ! k - feature_vector c ! k) + (feature_vector e ! k - feature_vector d ! k)) / 4 * s"
proof -
  from assms(1) have ne: "ms \<noteq> []" by auto
  have "last ms = last (last_n 5 ms)" using ne by (simp add: last_last_n)
  then have last: "last (map feature_vector ms) = feature_vector e"
    using ne assms(2) by (simp add: last_map)
  have rows: "last_n 5 (map feature_vector ms) = map feature_vector [a, b, c, d, e]"
    by (simp only: last_n_map assms(2))
  have len: "length (np_mean_axis0 6 (np_diff_axis0 (map feature_vector [a, b, c, d, e]))) = 6"
    by (simp add: np_mean_axis0_def)
  have "vec_add (feature_vector e)
          (vec_scale (np_mean_axis0 6 (np_diff_axis0 (map feature_vector [a, b, c, d, e]))) s) ! k =
        feature_vector e ! k
        + np_mean_axis0 6 (np_diff_axis0 (map feature_vector [a, b, c, d, e])) ! k * s"
    using assms(3) len
    by (simp only: vec_add_nth vec_scale_nth feature_vector_length vec_scale_length)
  then show ?thesis
    unfolding last rows using assms(3) by (simp only: trend_five_rows)
qed

lemma spec_projection_column:
  assumes "5 \<le> length ms" "last_n 5 ms = [a, b, c, d, e]"
  shows "spec_projection (map f ms) n =
         f e + ((f b - f a) + (f c - f b) + (f d - f c) + (f e - f d)) / 4 * (real_of_int n / 30)"
proof -
  from assms(1) have ne: "ms \<noteq> []" by auto
  have "last ms = last (last_n 5 ms)" using ne by (simp add: last_last_n)
  then have "last (map f ms) = f e" using ne assms(2) by (simp add: last_map)
  then show ?thesis
    by (simp add: spec_projection_def spec_trend_def last_n_map assms(2))
qed

lemma neural_predict_fields:
  fixes features :: "real list list" and n :: int
  assumes "5 \<le> length features"
  defines "fu \<equiv> vec_add (last features)
           (vec_scale (np_mean_axis0 6 (np_diff_axis0 (last_n 5 features))) (real_of_int n / 30))"
  shows "pred_cpu_usage (neural_predict features n) = clamp_percent (fu ! 0 * 100)"
    and "pred_memory_usage (neural_predict features n) = clamp_percent (fu ! 1 * 100)"
    and "pred_gpu_usage (neural_predict features n) = clamp_percent (fu ! 2 * 100)"
    and "pred_storage_usage (neural_predict features n) = clamp_percent (fu ! 3 * 100)"
  using assms(1) by (simp_all add: neural_predict_def Let_def fu_def)

text \<open>
  Claim C8. For a history of at least 10 samples and any horizon, the call returns a
  prediction whose CPU, memory, GPU and storage percentages are each the specified
  projection of that column (values as fractions of 100): the latest value plus the mean
  first difference of the last five values times the horizon over 30, taken times 100 and
  clamped; each of the four lies between 0 and 100.
\<close>

theorem C8_prediction_projection:
  assumes "10 \<le> length h"
  shows "\<exists>p r c. predict_resource_needs h n = Prediction n p r c
    \<and> pred_cpu_usage p =
        clamp_percent (spec_projection (map (\<lambda>m. cpu_usage m / 100) h) n * 100)
    \<and> pred_memory_usage p =
        clamp_percent (spec_projection (map (\<lambda>m. memory_usage m / 100) h) n * 100)
    \<and> pred_gpu_usage p =
        clamp_percent (spec_projection (map (\<lambda>m. gpu_usage m / 100) h) n * 100)
    \<and> pred_storage_usage p =
        clamp_percent (spec_projection (map (\<lambda>m. storage_usage m / 100) h) n * 100)
    \<and> 0 \<le> pred_cpu_usage p \<and> pred_cpu_usage p \<le> 100
    \<and> 0 \<le> pred_memory_usage p \<and> pred_memory_usage p \<le> 100
    \<and> 0 \<le> pred_gpu_usage p \<and> pred_gpu_usage p \<le> 100
    \<and> 0 \<le> pred_storage_usage p \<and> pred_storage_usage p \<le> 100"
proof -
  let ?ms = "last_n 10 h"
  let ?fs = "map feature_vector ?ms"
  let ?p = "neural_predict ?fs n"
  from assms have "length (last_n 5 h) = 5" by (simp add: last_n_length)
  then obtain a b c d e where l5: "last_n 5 h = [a, b, c, d, e]"
    by (rule list_of_length_5)
  have len10: "length ?ms = 10" using assms by (simp add: last_n_length)
  then have ge5: "5 \<le> length ?ms" by simp
  then have ge5': "5 \<le> length ?fs" by simp
  have l5': "last_n 5 ?ms = [a, b, c, d, e]" using l5 by (simp add: last_n_last_n)
  have h5: "5 \<le> length h" using assms by simp
  have k: "(0::nat) < 6" "(1::nat) < 6" "(2::nat) < 6" "(3::nat) < 6" by simp_all
  note col = neural_predict_column[OF ge5 l5', where s = "real_of_int n / 30"]
  note fld = neural_predict_fields[OF ge5', of n]
  have cpu: "pred_cpu_usage ?p =
      clamp_percent (spec_projection (map (\<lambda>m. cpu_usage m / 100) h) n * 100)"
    by (simp only: fld(1) col[OF k(1)] feature_vector_nth spec_projection_column[OF h5 l5])
  have mem: "pred_memory_usage ?p =
      clamp_percent (spec_projection (map (\<lambda>m. memory_usage m / 100) h) n * 100)"
    by (simp only: fld(2) col[OF k(2)] feature_vector_nth spec_projection_column[OF h5 l5])
  have gpu: "pred_gpu_usage ?p =
      clamp_percent (spec_projection (map (\<lambda>m. gpu_usage m / 100) h) n * 100)"
    by (simp only: fld(3) col[OF k(3)] feature_vector_nth spec_projection_column[OF h5 l5])
  have sto: "pred_storage_usage ?p =
      clamp_percent (spec_projection (map (\<lambda>m. storage_usage m / 100) h) n * 100)"
    by (simp only: fld(4) col[OF k(4)] feature_vector_nth spec_projection_column[OF h5 l5])
  have res: "predict_resource_needs h n =
      Prediction n ?p (generate_resource_recommendations ?p) (calculate_prediction_confidence h)"
    using assms
    by (simp add: predict_resource_needs_def extract_prediction_features_def Let_def)
  show ?thesis
    using res cpu mem gpu sto clamp_percent_range by metis
qed

lemma upt_10: "[0..<10] = [0, 1, 2, 3, 4, 5, 6, 7, 8, 9]"
  by (simp add: upt_rec)

theorem C8_prediction_projection_witness:
  "10 \<le> length ramp_history
   \<and> (\<exists>p r c. predict_resource_needs ramp_history 30 = Prediction 30 p r c
        \<and> pred_cpu_usage p = 60 \<and> pred_memory_usage p = 50
        \<and> pred_gpu_usage p = 0 \<and> pred_storage_usage p = 25)"
proof -
  have len: "10 \<le> length ramp_history" by (simp add: ramp_history_def)
  have cpu: "spec_projection (map (\<lambda>m. cpu_usage m / 100) ramp_history) 30 = 60 / 100"
    by (simp add: ramp_history_def upt_10 spec_projection_def spec_trend_def last_n_def)
  have mem: "spec_projection (map (\<lambda>m. memory_usage m / 100) ramp_history) 30 = 50 / 100"
    by (simp add: ramp_history_def upt_10 spec_projection_def spec_trend_def last_n_def)
  have gpu: "spec_projection (map (\<lambda>m. gpu_usage m / 100) ramp_history) 30 = 0"
    by (simp add: ramp_history_def upt_10 spec_projection_def spec_trend_def last_n_def)
  have sto: "spec_projection (map (\<lambda>m. storage_usage m / 100) ramp_history) 30 = 25 / 100"
    by (simp add: ramp_history_def upt_10 spec_projection_def spec_trend_def last_n_def)
  from C8_prediction_projection [OF len, of 30] len show ?thesis
    unfolding cpu mem gpu sto by (auto simp: clamp_percent_def)
qed

subsection \<open>Packing jobs into green windows\<close>









lemma scheduled_entry_capacity [simp]:
  "scheduled_entry j (w\<lparr>capacity := c\<rparr>) = scheduled_entry j w"
  by (simp add: scheduled_entry_def)




subsection \<open>Carbon savings\<close>

lemma np_mean_nonempty: "xs \<noteq> [] \<Longrightarrow> np_mean xs = Inr (sum_list xs / real (length xs))"
  by (simp add: np_mean_def)

lemma calculate_carbon_savings_nonempty:
  "js \<noteq> [] \<Longrightarrow>
   calculate_carbon_savings js =
     Inr \<lparr>total_savings_kg_co2 =
            max 0 (spec_emissions_kg (length js) 450 - spec_emissions_kg (length js) (mean_intensity js)),
          percentage_reduction =
            max 0 ((spec_emissions_kg (length js) 450 - spec_emissions_kg (length js) (mean_intensity js))
                   / spec_emissions_kg (length js) 450 * 100),
          immediate_emissions_kg_co2 = Some (spec_emissions_kg (length js) 450),
          green_emissions_kg_co2 = Some (spec_emissions_kg (length js) (mean_intensity js)),
          jobs_scheduled = Some (length js)\<rparr>"
  by (simp add: calculate_carbon_savings_def Let_def np_mean_nonempty checked_div_def
      spec_emissions_kg_def mean_intensity_def)

lemma calculate_carbon_savings_empty:
  "calculate_carbon_savings [] =
     Inr \<lparr>total_savings_kg_co2 = 0, percentage_reduction = 0,
          immediate_emissions_kg_co2 = None, green_emissions_kg_co2 = None,
          jobs_scheduled = None\<rparr>"
  by (simp add: calculate_carbon_savings_def)

text \<open>
  Claim C5. For a non-empty list of scheduled jobs the reported savings are the emissions
  of the jobs at 450 gCO2/kWh minus their emissions at the mean intensity of the list, at
  one kWh per job, and never below zero; the percentage is that difference relative to the
  baseline emissions, never below zero. For every list both reported numbers are at least
  zero.
\<close>

theorem C5_carbon_savings:
  "(js \<noteq> [] \<longrightarrow>
      calculate_carbon_savings js =
        Inr \<lparr>total_savings_kg_co2 =
               max 0 (spec_emissions_kg (length js) 450
                      - spec_emissions_kg (length js) (mean_intensity js)),
             percentage_reduction =
               max 0 ((spec_emissions_kg (length js) 450
                       - spec_emissions_kg (length js) (mean_intensity js))
                      / spec_emissions_kg (length js) 450 * 100),
             immediate_emissions_kg_co2 = Some (spec_emissions_kg (length js) 450),
             green_emissions_kg_co2 = Some (spec_emissions_kg (length js) (mean_intensity js)),
             jobs_scheduled = Some (length js)\<rparr>)
   \<and> (\<exists>r. calculate_carbon_savings js = Inr r
          \<and> 0 \<le> total_savings_kg_co2 r \<and> 0 \<le> percentage_reduction r)"
  by (cases "js = []") (simp_all add: calculate_carbon_savings_nonempty calculate_carbon_savings_empty)

theorem C5_carbon_savings_witness:
  "[\<lparr>sj_job_id = Some ''a'', scheduled_start = 9, scheduled_end = 10,
      sj_carbon_intensity = 500, sj_renewable_percentage = 60,
      sj_carbon_priority = ''normal''\<rparr>] \<noteq> []
   \<and> calculate_carbon_savings
        [\<lparr>sj_job_id = Some ''a'', scheduled_start = 9, scheduled_end = 10,
          sj_carbon_intensity = 500, sj_renewable_percentage = 60,
          sj_carbon_priority = ''normal''\<rparr>] =
      Inr \<lparr>total_savings_kg_co2 = 0, percentage_reduction = 0,
           immediate_emissions_kg_co2 = Some (9 / 20), green_emissions_kg_co2 = Some (1 / 2),
           jobs_scheduled = Some 1\<rparr>"
  using C5_carbon_savings
    [of "[\<lparr>sj_job_id = Some ''a'', scheduled_start = 9, scheduled_end = 10,
           sj_carbon_intensity = 500, sj_renewable_percentage = 60,
           sj_carbon_priority = ''normal''\<rparr>]"]
  by (simp add: spec_emissions_kg_def mean_intensity_def)

text \<open>
  Claim C10. For the empty list the savings are 0 and the percentage is 0, and no mean is
  taken and nothing divided. For every list the computation returns a result: it takes the
  mean of a non-empty list only and divides by positive baseline emissions only.
\<close>

theorem C10_carbon_savings_total:
  "calculate_carbon_savings [] =
     Inr \<lparr>total_savings_kg_co2 = 0, percentage_reduction = 0,
          immediate_emissions_kg_co2 = None, green_emissions_kg_co2 = None,
          jobs_scheduled = None\<rparr>
   \<and> (\<exists>r. calculate_carbon_savings js = Inr r)"
  by (cases "js = []") (simp_all add: calculate_carbon_savings_nonempty calculate_carbon_savings_empty)

end
